theory Spec2Isabelle
  imports Main "HOL-Library.Word"
begin

unbundle bit_operations_syntax

section \<open>The platform: integer types, conversions and arithmetic of C++20\<close>

text \<open>
  The header \<^verbatim>\<open>n_byte_int.h\<close> is a template over a native integer type.  An integer
  type is given by its signedness and its size in bytes; its values are mathematical
  integers inside the range of the type.  Bytes have eight bits and \<^verbatim>\<open>int\<close> has four
  bytes.  The header needs C++20 (\<^verbatim>\<open>std::endian\<close>), so signed integers are two's
  complement and a conversion to an integer type is reduction modulo \<open>2 ^ width\<close>.
  Overflow of signed arithmetic and an access outside an object are undefined behaviour;
  both are error results here.
\<close>

datatype endian = Little | Big

datatype error = Signed_overflow | Out_of_bounds

datatype int_type = Signed nat | Unsigned nat

fun sizeof :: "int_type \<Rightarrow> nat" where
  "sizeof (Signed n) = n"
| "sizeof (Unsigned n) = n"

fun is_signed_v :: "int_type \<Rightarrow> bool" where
  "is_signed_v (Signed n) = True"
| "is_signed_v (Unsigned n) = False"

definition make_unsigned_t :: "int_type \<Rightarrow> int_type" where
  "make_unsigned_t t = Unsigned (sizeof t)"

definition make_signed_t :: "int_type \<Rightarrow> int_type" where
  "make_signed_t t = Signed (sizeof t)"

definition CHAR_BIT :: nat where
  "CHAR_BIT = 8"

definition sizeof_int :: nat where
  "sizeof_int = 4"

definition width :: "int_type \<Rightarrow> nat" where
  "width t = sizeof t * CHAR_BIT"

definition numeric_min :: "int_type \<Rightarrow> int" where
  "numeric_min t = (if is_signed_v t then - (2 ^ (width t - 1)) else 0)"

definition numeric_max :: "int_type \<Rightarrow> int" where
  "numeric_max t = (if is_signed_v t then 2 ^ (width t - 1) - 1 else 2 ^ width t - 1)"

definition representable :: "int_type \<Rightarrow> int \<Rightarrow> bool" where
  "representable t v \<longleftrightarrow> numeric_min t \<le> v \<and> v \<le> numeric_max t"

text \<open>\<^verbatim>\<open>static_cast<T>(v)\<close>: the value of \<open>T\<close> congruent to \<open>v\<close> modulo \<open>2 ^ width T\<close>.\<close>

definition static_cast :: "int_type \<Rightarrow> int \<Rightarrow> int" where
  "static_cast t v =
     (if is_signed_v t then (v + 2 ^ (width t - 1)) mod 2 ^ width t - 2 ^ (width t - 1)
      else v mod 2 ^ width t)"

text \<open>
  Integral promotion: an operand narrower than \<^verbatim>\<open>int\<close> is converted to \<^verbatim>\<open>int\<close>
  before the operation.
\<close>

definition promote :: "int_type \<Rightarrow> int_type" where
  "promote t = (if sizeof t < sizeof_int then Signed sizeof_int else t)"

text \<open>
  The result of \<open>+\<close> or \<open>*\<close> computed in type \<open>t\<close>, from the mathematical result \<open>r\<close>:
  unsigned arithmetic wraps, signed arithmetic that leaves the range is undefined.
\<close>

definition arith_result :: "int_type \<Rightarrow> int \<Rightarrow> error + int" where
  "arith_result t r =
     (if is_signed_v t then (if representable t r then Inr r else Inl Signed_overflow)
      else Inr (r mod 2 ^ width t))"

text \<open>\<^verbatim>\<open>~v\<close> at type \<open>t\<close>: every bit of the \<open>width t\<close> bits flipped.\<close>

definition complement :: "int_type \<Rightarrow> int \<Rightarrow> int" where
  "complement t v = static_cast t (NOT v)"

text \<open>\<^verbatim>\<open>a << k\<close> at type \<open>t\<close>, for a shift count below the width.\<close>

definition shift_left :: "int_type \<Rightarrow> int \<Rightarrow> nat \<Rightarrow> int" where
  "shift_left t a k = static_cast t (a * 2 ^ k)"

section \<open>The two's-complement codec\<close>

text \<open>
  \<^verbatim>\<open>to_twos_complement(Sint value)\<close>, lines 67 to 78.  The product \<^verbatim>\<open>value * -1\<close> is
  computed in the promoted signed type; the complement and the addition in the promoted
  unsigned type; the \<^verbatim>\<open>return\<close> converts to \<^verbatim>\<open>make_unsigned_t<Sint>\<close>.
\<close>

definition to_twos_complement :: "int_type \<Rightarrow> int \<Rightarrow> error + int" where
  "to_twos_complement Sint v =
     (let Uint = make_unsigned_t Sint in
      if v \<ge> 0 then Inr (static_cast Uint v)
      else
        (case arith_result (promote Sint) (v * - 1) of
           Inl e \<Rightarrow> Inl e
         | Inr m \<Rightarrow>
             (case arith_result (promote Uint)
                     (complement (promote Uint) (static_cast Uint m) + 1) of
                Inl e \<Rightarrow> Inl e
              | Inr r \<Rightarrow> Inr (static_cast Uint r))))"

text \<open>
  \<^verbatim>\<open>from_twos_complement(Uint value)\<close>, lines 84 to 95.  The mask is
  \<^verbatim>\<open>Uint{1} << (sizeof(Uint) * CHAR_BIT - 1)\<close>; the product with \<open>-1\<close> is computed in the
  promoted signed type and the \<^verbatim>\<open>return\<close> converts to \<^verbatim>\<open>make_signed_t<Uint>\<close>.
\<close>

definition from_twos_complement :: "int_type \<Rightarrow> int \<Rightarrow> error + int" where
  "from_twos_complement Uint v =
     (let Sint = make_signed_t Uint in
      if (v AND shift_left (promote Uint) 1 (sizeof Uint * CHAR_BIT - 1)) = 0
      then Inr (static_cast Sint v)
      else
        (case arith_result (promote Uint) (complement (promote Uint) v + 1) of
           Inl e \<Rightarrow> Inl e
         | Inr n \<Rightarrow>
             (case arith_result (promote Sint) (static_cast Sint n * - 1) of
                Inl e \<Rightarrow> Inl e
              | Inr r \<Rightarrow> Inr (static_cast Sint r))))"

section \<open>Objects, iterators and \<^verbatim>\<open>std::copy_n\<close>\<close>

text \<open>
  An object is the list of its bytes in address order.  An unsigned scalar of type \<open>t\<close>
  with value \<open>u\<close> is stored least significant byte first on a little-endian host and
  most significant byte first on a big-endian host.
\<close>

type_synonym byte = "8 word"

definition byte_of :: "int \<Rightarrow> nat \<Rightarrow> byte" where
  "byte_of u i = word_of_int (u div 256 ^ i)"

definition object_representation :: "endian \<Rightarrow> int_type \<Rightarrow> int \<Rightarrow> byte list" where
  "object_representation native t u =
     (let lsb_first = map (byte_of u) [0..<sizeof t]
      in if native = Little then lsb_first else rev lsb_first)"

fun unsigned_of_lsb_first :: "byte list \<Rightarrow> int" where
  "unsigned_of_lsb_first [] = 0"
| "unsigned_of_lsb_first (b # bs) = uint b + 256 * unsigned_of_lsb_first bs"

definition scalar_value :: "endian \<Rightarrow> byte list \<Rightarrow> int" where
  "scalar_value native bs = unsigned_of_lsb_first (if native = Little then bs else rev bs)"

text \<open>
  The two objects a member function touches: the member \<^verbatim>\<open>data_\<close> of the instance and
  the local variable \<^verbatim>\<open>uvalue\<close>.
\<close>

datatype object = This_data | Local_uvalue

type_synonym memory = "object \<Rightarrow> byte list"

definition frame :: "byte list \<Rightarrow> byte list \<Rightarrow> memory" where
  "frame d u = (\<lambda>obj. case obj of This_data \<Rightarrow> d | Local_uvalue \<Rightarrow> u)"

text \<open>
  An iterator is a pointer to the byte at an offset of an object, or a
  \<^verbatim>\<open>std::reverse_iterator\<close> whose base is such a pointer.  A reverse iterator designates
  the byte before its base, and moves backwards when it is incremented.
\<close>

datatype iterator = Pointer object int | Reverse_iterator object int

fun make_reverse_iterator :: "iterator \<Rightarrow> iterator" where
  "make_reverse_iterator (Pointer obj p) = Reverse_iterator obj p"
| "make_reverse_iterator (Reverse_iterator obj b) = Pointer obj b"

fun next_it :: "iterator \<Rightarrow> int \<Rightarrow> iterator" where
  "next_it (Pointer obj p) n = Pointer obj (p + n)"
| "next_it (Reverse_iterator obj b) n = Reverse_iterator obj (b - n)"

fun prev_it :: "iterator \<Rightarrow> iterator" where
  "prev_it (Pointer obj p) = Pointer obj (p - 1)"
| "prev_it (Reverse_iterator obj b) = Reverse_iterator obj (b + 1)"

fun designates :: "iterator \<Rightarrow> object \<times> int" where
  "designates (Pointer obj p) = (obj, p)"
| "designates (Reverse_iterator obj b) = (obj, b - 1)"

definition read_it :: "memory \<Rightarrow> iterator \<Rightarrow> error + byte" where
  "read_it mem it =
     (case designates it of
        (obj, k) \<Rightarrow>
          if 0 \<le> k \<and> k < int (length (mem obj)) then Inr (mem obj ! nat k)
          else Inl Out_of_bounds)"

definition write_it :: "memory \<Rightarrow> iterator \<Rightarrow> byte \<Rightarrow> error + memory" where
  "write_it mem it b =
     (case designates it of
        (obj, k) \<Rightarrow>
          if 0 \<le> k \<and> k < int (length (mem obj)) then Inr (mem(obj := (mem obj)[nat k := b]))
          else Inl Out_of_bounds)"

text \<open>\<^verbatim>\<open>std::copy_n(first, count, result)\<close>: \<^verbatim>\<open>*result++ = *first++\<close>, \<open>count\<close> times.\<close>

fun copy_n :: "memory \<Rightarrow> iterator \<Rightarrow> nat \<Rightarrow> iterator \<Rightarrow> error + memory" where
  "copy_n mem first 0 result = Inr mem"
| "copy_n mem first (Suc n) result =
     (case read_it mem first of
        Inl e \<Rightarrow> Inl e
      | Inr b \<Rightarrow>
          (case write_it mem result b of
             Inl e \<Rightarrow> Inl e
           | Inr mem' \<Rightarrow> copy_n mem' (next_it first 1) n (next_it result 1)))"

section \<open>Endian byte-sequencing\<close>

text \<open>
  \<^verbatim>\<open>little_endian_byte_iterator(scalar)\<close>, lines 17 to 28 and 41 to 52: on a little-endian
  host the pointer to the first byte of the scalar, otherwise
  \<^verbatim>\<open>std::make_reverse_iterator\<close> of that same pointer.
\<close>

definition little_endian_byte_iterator :: "endian \<Rightarrow> object \<Rightarrow> iterator" where
  "little_endian_byte_iterator native scalar =
     (if native = Little then Pointer scalar 0
      else make_reverse_iterator (Pointer scalar 0))"

definition little_endian_byte_end_iterator :: "endian \<Rightarrow> int_type \<Rightarrow> object \<Rightarrow> iterator" where
  "little_endian_byte_end_iterator native t scalar =
     next_it (little_endian_byte_iterator native scalar) (int (sizeof t))"

section \<open>The class \<^verbatim>\<open>N_byte_int\<close>\<close>

text \<open>
  The template parameters \<^verbatim>\<open>Int\<close>, \<^verbatim>\<open>Num_bytes\<close> and \<^verbatim>\<open>Byte_order\<close>, and the only data
  member, the array \<^verbatim>\<open>data_\<close> (here \<open>data\<close>).  The \<^verbatim>\<open>enable_if\<close> of the template asks for
  \<open>Num_bytes \<le> sizeof Int\<close>.
\<close>

record tparams =
  Int_t :: int_type
  Num_bytes :: nat
  Byte_order :: endian

record N_byte_int =
  data :: "byte list"

definition enabled :: "tparams \<Rightarrow> bool" where
  "enabled T \<longleftrightarrow> Num_bytes T \<le> sizeof (Int_t T)"

text \<open>
  \<^verbatim>\<open>data_.begin()\<close> or \<^verbatim>\<open>data_.rbegin()\<close>, and \<^verbatim>\<open>data_.end()\<close> or \<^verbatim>\<open>data_.rend()\<close>
  (lines 121 to 159); \<^verbatim>\<open>rbegin()\<close> is the reverse iterator of \<^verbatim>\<open>end()\<close>.
\<close>

definition data_begin_little_endian :: "tparams \<Rightarrow> iterator" where
  "data_begin_little_endian T =
     (if Byte_order T = Little then Pointer This_data 0
      else make_reverse_iterator (Pointer This_data (int (Num_bytes T))))"

definition data_end_little_endian :: "tparams \<Rightarrow> iterator" where
  "data_end_little_endian T =
     (if Byte_order T = Little then Pointer This_data (int (Num_bytes T))
      else make_reverse_iterator (Pointer This_data 0))"

definition data_msb :: "tparams \<Rightarrow> memory \<Rightarrow> error + byte" where
  "data_msb T mem = read_it mem (prev_it (data_end_little_endian T))"

text \<open>\<^verbatim>\<open>assign_value\<close>, lines 171 to 181.\<close>

definition assign_value :: "endian \<Rightarrow> tparams \<Rightarrow> N_byte_int \<Rightarrow> int \<Rightarrow> error + N_byte_int" where
  "assign_value native T self v =
     (let Uint = make_unsigned_t (Int_t T) in
      case (if is_signed_v (Int_t T) then to_twos_complement (Int_t T) v
            else Inr (static_cast Uint v)) of
        Inl e \<Rightarrow> Inl e
      | Inr uvalue \<Rightarrow>
          (case copy_n (frame (data self) (object_representation native Uint uvalue))
                  (little_endian_byte_iterator native Local_uvalue) (Num_bytes T)
                  (data_begin_little_endian T) of
             Inl e \<Rightarrow> Inl e
           | Inr mem \<Rightarrow> Inr (self\<lparr>data := mem This_data\<rparr>)))"

text \<open>
  \<^verbatim>\<open>get_value\<close>, lines 183 to 199, in two parts.  First the carrier \<^verbatim>\<open>uvalue\<close> is
  prepared and the stored bytes are copied into it (lines 184 to 191); the result is the
  memory the copy leaves.
\<close>

definition load_carrier :: "endian \<Rightarrow> tparams \<Rightarrow> N_byte_int \<Rightarrow> error + memory" where
  "load_carrier native T self =
     (let Uint = make_unsigned_t (Int_t T); zero = 0 in
      case (if is_signed_v (Int_t T) \<and> Num_bytes T < sizeof (Int_t T)
            then (case data_msb T (frame (data self) (object_representation native Uint zero)) of
                    Inl e \<Rightarrow> Inl e
                  | Inr msb \<Rightarrow>
                      Inr (if msb AND 0x80 \<noteq> 0
                           then static_cast Uint (complement (promote Uint) zero)
                           else zero))
            else Inr zero) of
        Inl e \<Rightarrow> Inl e
      | Inr uvalue \<Rightarrow>
          copy_n (frame (data self) (object_representation native Uint uvalue))
            (data_begin_little_endian T) (Num_bytes T)
            (little_endian_byte_iterator native Local_uvalue))"

text \<open>
  Then the carrier is decoded (lines 193 to 198).  The result is the value returned
  together with the instance as the call leaves it.
\<close>

definition get_value :: "endian \<Rightarrow> tparams \<Rightarrow> N_byte_int \<Rightarrow> error + int \<times> N_byte_int" where
  "get_value native T self =
     (case load_carrier native T self of
        Inl e \<Rightarrow> Inl e
      | Inr mem \<Rightarrow>
          (case (if is_signed_v (Int_t T)
                 then from_twos_complement (make_unsigned_t (Int_t T))
                        (scalar_value native (mem Local_uvalue))
                 else Inr (static_cast (Int_t T) (scalar_value native (mem Local_uvalue)))) of
             Inl e \<Rightarrow> Inl e
           | Inr r \<Rightarrow> Inr (r, self\<lparr>data := mem This_data\<rparr>)))"

text \<open>
  The public interface, lines 201 to 223.  The constructor starts from an instance whose
  array holds \<open>Num_bytes\<close> indeterminate bytes; its default argument is \<^verbatim>\<open>Int{}\<close>, zero.
\<close>

definition construct :: "endian \<Rightarrow> tparams \<Rightarrow> N_byte_int \<Rightarrow> int \<Rightarrow> error + N_byte_int" where
  "construct native T uninitialized v = assign_value native T uninitialized v"

definition default_construct :: "endian \<Rightarrow> tparams \<Rightarrow> N_byte_int \<Rightarrow> error + N_byte_int" where
  "default_construct native T uninitialized = construct native T uninitialized 0"

definition operator_assign :: "endian \<Rightarrow> tparams \<Rightarrow> N_byte_int \<Rightarrow> int \<Rightarrow> error + N_byte_int" where
  "operator_assign native T self v = assign_value native T self v"

definition operator_Int :: "endian \<Rightarrow> tparams \<Rightarrow> N_byte_int \<Rightarrow> error + int \<times> N_byte_int" where
  "operator_Int native T self = get_value native T self"

definition value_of :: "endian \<Rightarrow> tparams \<Rightarrow> N_byte_int \<Rightarrow> error + int \<times> N_byte_int" where
  "value_of native T self = get_value native T self"

definition bytes :: "N_byte_int \<Rightarrow> byte list \<times> N_byte_int" where
  "bytes self = (data self, self)"

section \<open>Notions used to state the properties\<close>

text \<open>
  The type parameters the specification admits: \<open>1 \<le> Num_bytes \<le> sizeof Int\<close>.
\<close>

definition valid_parameters :: "tparams \<Rightarrow> bool" where
  "valid_parameters T \<longleftrightarrow> enabled T \<and> 0 < Num_bytes T"

text \<open>
  The input at which the product with \<open>-1\<close> leaves the range of the type it is computed
  in: the most negative value of a signed type that is not promoted.
\<close>

definition negation_overflows :: "int_type \<Rightarrow> int \<Rightarrow> bool" where
  "negation_overflows t v \<longleftrightarrow> is_signed_v t \<and> sizeof_int \<le> sizeof t \<and> v = numeric_min t"

text \<open>The \<open>n\<close> least significant bytes of \<open>v\<close>, least significant first.\<close>

definition low_bytes :: "nat \<Rightarrow> int \<Rightarrow> byte list" where
  "low_bytes n v = map (byte_of v) [0..<n]"

text \<open>
  From least-significant-first order to the physical order of the array and back:
  unchanged for a little-endian type, reversed for a big-endian one.
\<close>

definition in_byte_order :: "tparams \<Rightarrow> byte list \<Rightarrow> byte list" where
  "in_byte_order T bs = (if Byte_order T = Little then bs else rev bs)"

text \<open>
  The two's-complement interpretation of a sequence of bytes given least significant
  first, and the value a sequence of stored bytes stands for under the type's rule.
\<close>

definition twos_complement_interpretation :: "byte list \<Rightarrow> int" where
  "twos_complement_interpretation bs =
     (let m = unsigned_of_lsb_first bs
      in if m < 2 ^ (8 * length bs - 1) then m else m - 2 ^ (8 * length bs))"

definition decode_bytes :: "tparams \<Rightarrow> byte list \<Rightarrow> int" where
  "decode_bytes T bs =
     (if is_signed_v (Int_t T) then twos_complement_interpretation bs
      else unsigned_of_lsb_first bs)"

text \<open>
  A value fits in \<open>Num_bytes\<close> bytes: \<open>- 2 ^ (8 N - 1) \<le> v < 2 ^ (8 N - 1)\<close> for a signed
  type, \<open>0 \<le> v < 2 ^ (8 N)\<close> for an unsigned one.
\<close>

definition fits :: "tparams \<Rightarrow> int \<Rightarrow> bool" where
  "fits T v \<longleftrightarrow>
     (if is_signed_v (Int_t T)
      then - (2 ^ (8 * Num_bytes T - 1)) \<le> v \<and> v < 2 ^ (8 * Num_bytes T - 1)
      else 0 \<le> v \<and> v < 2 ^ (8 * Num_bytes T))"

text \<open>
  The native-width pattern of a value (two's complement for a negative one), and the
  truncation of the specification: the pattern reduced modulo \<open>2 ^ (8 N)\<close>, those low
  bits read as two's complement for a signed type and as plain binary otherwise.
\<close>

definition native_pattern :: "int_type \<Rightarrow> int \<Rightarrow> int" where
  "native_pattern t v = v mod 2 ^ width t"

definition truncated :: "tparams \<Rightarrow> int \<Rightarrow> int" where
  "truncated T v =
     (let low = native_pattern (Int_t T) v mod 2 ^ (8 * Num_bytes T)
      in if is_signed_v (Int_t T) \<and> 2 ^ (8 * Num_bytes T - 1) \<le> low
         then low - 2 ^ (8 * Num_bytes T) else low)"

text \<open>The stored byte of highest significance: the last of a little-endian array, the
  first of a big-endian one.\<close>

definition most_significant_byte :: "tparams \<Rightarrow> N_byte_int \<Rightarrow> byte" where
  "most_significant_byte T self =
     (if Byte_order T = Little then last (data self) else hd (data self))"

section \<open>Arithmetic of the codec\<close>

lemma mod_shift_up:
  fixes a M :: int
  assumes "0 \<le> a + M" "a < 0"
  shows "a mod M = a + M"
proof -
  have "(a + M) mod M = a mod M" by (rule mod_add_self2)
  moreover have "(a + M) mod M = a + M" using assms by (intro mod_pos_pos_trivial) simp_all
  ultimately show ?thesis by simp
qed

lemma width_simps [simp]:
  "width (Signed n) = 8 * n" "width (Unsigned n) = 8 * n"
  by (simp_all add: width_def CHAR_BIT_def)

lemma pow_width_split:
  assumes "0 < n"
  shows "(2::int) ^ (8 * n) = 2 * 2 ^ (8 * n - 1)"
proof -
  have "8 * n = Suc (8 * n - 1)" using assms by simp
  then show ?thesis by (metis power_Suc)
qed

lemma mask_test:
  fixes v :: int
  assumes "0 \<le> v" "v < 2 * 2 ^ k"
  shows "(v AND 2 ^ k = 0) \<longleftrightarrow> v < 2 ^ k"
proof -
  have "(v AND 2 ^ k = 0) \<longleftrightarrow> \<not> bit v k" by (rule and_exp_eq_0_iff_not_bit)
  also have "\<dots> \<longleftrightarrow> even (v div 2 ^ k)" by (simp add: bit_iff_odd)
  also have "\<dots> \<longleftrightarrow> v < 2 ^ k"
  proof (cases "v < 2 ^ k")
    case True
    then show ?thesis using assms by (simp add: div_pos_pos_trivial)
  next
    case False
    then have "v div 2 ^ k = 1"
      using assms
      by (intro int_div_pos_eq[where r="v - 2^k"]) (simp_all)
    then show ?thesis using False by simp
  qed
  finally show ?thesis .
qed

text \<open>Conversions of a value inside the range of the target type are the identity.\<close>

lemma static_cast_unsigned_id:
  "0 \<le> v \<Longrightarrow> v < 2 ^ (8 * n) \<Longrightarrow> static_cast (Unsigned n) v = v"
  by (simp add: static_cast_def mod_pos_pos_trivial)

lemma static_cast_signed_id:
  assumes "0 < n" "- (2 ^ (8 * n - 1)) \<le> v" "v < 2 ^ (8 * n - 1)"
  shows "static_cast (Signed n) v = v"
proof -
  have "(v + 2 ^ (8 * n - 1)) mod 2 ^ (8 * n) = v + 2 ^ (8 * n - 1)"
    using assms by (intro mod_pos_pos_trivial) (simp_all add: pow_width_split)
  then show ?thesis by (simp add: static_cast_def)
qed

lemma static_cast_unsigned_neg:
  "- (2 ^ (8 * n)) \<le> v \<Longrightarrow> v < 0 \<Longrightarrow> static_cast (Unsigned n) v = v + 2 ^ (8 * n)"
  by (simp add: static_cast_def mod_shift_up)

lemma pow_small:
  assumes "n < sizeof_int"
  shows "(2::int) ^ (8 * n) \<le> 2 ^ 24"
proof -
  have "8 * n \<le> 24" using assms by (simp add: sizeof_int_def)
  then show ?thesis by (intro power_increasing) simp_all
qed


lemma promote_small: "n < sizeof_int \<Longrightarrow> promote (Signed n) = Signed 4 \<and> promote (Unsigned n) = Signed 4"
  by (simp add: promote_def sizeof_int_def)

lemma promote_wide: "sizeof_int \<le> n \<Longrightarrow> promote (Signed n) = Signed n \<and> promote (Unsigned n) = Unsigned n"
  by (simp add: promote_def)

lemma representable_int32:
  "representable (Signed 4) r \<longleftrightarrow> - 2147483648 \<le> r \<and> r \<le> 2147483647"
  by (simp add: representable_def numeric_min_def numeric_max_def)

lemma static_cast_int32_id:
  "- 2147483648 \<le> r \<Longrightarrow> r \<le> 2147483647 \<Longrightarrow> static_cast (Signed 4) r = r"
  using static_cast_signed_id [of 4 r] by simp

lemma to_twos_complement_value:
  assumes n: "0 < n" and v: "representable (Signed n) v"
    and ok: "\<not> (sizeof_int \<le> n \<and> v = numeric_min (Signed n))"
  shows "to_twos_complement (Signed n) v = Inr (v mod 2 ^ (8 * n))"
proof (cases "0 \<le> v")
  case True
  then show ?thesis
    by (simp add: to_twos_complement_def make_unsigned_t_def static_cast_def)
next
  case False
  define H :: int where "H = 2 ^ (8 * n - 1)"
  have M: "(2::int) ^ (8 * n) = 2 * H" using n by (simp add: H_def pow_width_split)
  have H: "0 < H" by (simp add: H_def)
  from v have lo: "- H \<le> v" and neg: "v < 0" using False
    by (simp_all add: representable_def numeric_min_def H_def)
  have res: "v mod 2 ^ (8 * n) = v + 2 * H"
    unfolding M using lo neg H by (intro mod_shift_up) simp_all
  show ?thesis
  proof (cases "n < sizeof_int")
    case True
    have small: "2 * H \<le> 2 ^ 24" using pow_small [OF True] by (simp add: M)
    have m: "static_cast (Unsigned n) (- v) = - v"
      using lo neg H by (intro static_cast_unsigned_id) (simp_all add: M)
    have c: "complement (Signed 4) (- v) + 1 = v"
      using lo neg small by (simp add: complement_def static_cast_int32_id not_int_def)
    have f: "static_cast (Unsigned n) v = v mod 2 ^ (8 * n)"
      by (simp add: static_cast_def)
    show ?thesis
      using lo neg small False
      by (simp add: to_twos_complement_def Let_def make_unsigned_t_def promote_small [OF True]
          arith_result_def representable_int32 m c f)
  next
    case False
    then have wide: "sizeof_int \<le> n" by simp
    with ok have "v \<noteq> - H" by (simp add: numeric_min_def H_def)
    with lo have lo': "- H < v" by simp
    have r: "representable (Signed n) (- v)"
      using lo' neg by (simp add: representable_def numeric_min_def numeric_max_def H_def)
    have m: "static_cast (Unsigned n) (- v) = - v"
      using lo neg H by (intro static_cast_unsigned_id) (simp_all add: M)
    have c: "complement (Unsigned n) (- v) = 2 * H - 1 + v"
    proof -
      have "(v - 1) mod (2 * H) = v - 1 + 2 * H"
        using lo' neg H by (intro mod_shift_up) simp_all
      then show ?thesis by (simp add: complement_def static_cast_def not_int_def M)
    qed
    have a: "(2 * H + v) mod 2 ^ (8 * n) = v + 2 * H"
      unfolding M using lo' neg H by (intro mod_pos_pos_trivial [THEN trans]) simp_all
    have s: "static_cast (Unsigned n) (v + 2 * H) = v + 2 * H"
      using lo' neg H by (intro static_cast_unsigned_id) (simp_all add: M)
    show ?thesis
      using \<open>\<not> 0 \<le> v\<close> r
      by (simp add: to_twos_complement_def Let_def make_unsigned_t_def promote_wide [OF wide]
          arith_result_def m c a s res del: mod_add_self2)
  qed
qed


lemma to_twos_complement_overflow:
  assumes "sizeof_int \<le> n"
  shows "to_twos_complement (Signed n) (numeric_min (Signed n)) = Inl Signed_overflow"
proof -
  have "\<not> representable (Signed n) (2 ^ (8 * n - 1))"
    by (simp add: representable_def numeric_max_def)
  then show ?thesis
    by (simp add: to_twos_complement_def Let_def promote_wide [OF assms] arith_result_def
        numeric_min_def)
qed

lemma static_cast_signed_half:
  assumes "0 < n"
  shows "static_cast (Signed n) (2 ^ (8 * n - 1)) = - (2 ^ (8 * n - 1))"
proof -
  have "(2 ^ (8 * n - 1) + 2 ^ (8 * n - 1)) mod (2::int) ^ (8 * n) = 0"
    using assms by (simp add: pow_width_split)
  then show ?thesis by (simp add: static_cast_def)
qed

lemma mask_value:
  assumes "0 < n"
  shows "shift_left (promote (Unsigned n)) 1 (sizeof (Unsigned n) * CHAR_BIT - 1) = 2 ^ (8 * n - 1)"
proof (cases "n < sizeof_int")
  case True
  have "(2::int) * 2 ^ (8 * n - 1) \<le> 16777216"
    using pow_small [OF True] assms by (simp add: pow_width_split)
  moreover have "(0::int) < 2 ^ (8 * n - 1)" by simp
  ultimately have "static_cast (Signed 4) (2 ^ (8 * n - 1)) = 2 ^ (8 * n - 1)"
    by (intro static_cast_int32_id) linarith+
  then show ?thesis
    by (simp add: shift_left_def promote_small [OF True] CHAR_BIT_def mult.commute)
next
  case False
  then have wide: "sizeof_int \<le> n" by simp
  have "static_cast (Unsigned n) (2 ^ (8 * n - 1)) = 2 ^ (8 * n - 1)"
    using assms by (intro static_cast_unsigned_id) (simp_all add: pow_width_split)
  then show ?thesis
    by (simp add: shift_left_def promote_wide [OF wide] CHAR_BIT_def mult.commute)
qed

lemma from_twos_complement_value:
  assumes n: "0 < n" and p: "0 \<le> p" "p < 2 ^ (8 * n)"
    and ok: "\<not> (sizeof_int \<le> n \<and> p = 2 ^ (8 * n - 1))"
  shows "from_twos_complement (Unsigned n) p =
           Inr (if p < 2 ^ (8 * n - 1) then p else p - 2 ^ (8 * n))"
proof -
  define H :: int where "H = 2 ^ (8 * n - 1)"
  have M: "(2::int) ^ (8 * n) = 2 * H" using n by (simp add: H_def pow_width_split)
  have H: "0 < H" by (simp add: H_def)
  have test: "(p AND shift_left (promote (Unsigned n)) 1 (sizeof (Unsigned n) * CHAR_BIT - 1) = 0)
                \<longleftrightarrow> p < H"
    unfolding mask_value [OF n] H_def using p n by (intro mask_test) (simp_all add: pow_width_split)
  have "from_twos_complement (Unsigned n) p = Inr (if p < H then p else p - 2 * H)"
  proof (cases "p < H")
    case True
    have "static_cast (Signed n) p = p"
      using n p True by (intro static_cast_signed_id) (simp_all add: H_def)
    then show ?thesis
      using True test by (simp add: from_twos_complement_def Let_def make_signed_t_def)
  next
    case False
    then have hi: "H \<le> p" by simp
    have top: "p < 2 * H" using p by (simp add: M)
    have rt: "static_cast (Signed n) (p - 2 * H) = p - 2 * H"
      using n hi top by (intro static_cast_signed_id) (simp_all add: H_def)
    show ?thesis
    proof (cases "n < sizeof_int")
      case True
      have small: "2 * H \<le> 2 ^ 24" using pow_small [OF True] by (simp add: M)
      have c: "complement (Signed 4) p + 1 = - p"
        using p top small by (simp add: complement_def static_cast_int32_id not_int_def)
      have s: "static_cast (Signed n) (- p) = (if p = H then - H else 2 * H - p)"
      proof (cases "p = H")
        case True
        have "(0::int) mod 2 ^ (8 * n) = 0" by simp
        then show ?thesis using True by (simp add: static_cast_def H_def)
      next
        case False
        with hi have "H < p" by simp
        then have "(- p + H) mod (2 * H) = - p + H + 2 * H"
          using top by (intro mod_shift_up) simp_all
        then show ?thesis using False by (simp add: static_cast_def M) (simp add: H_def)
      qed
      have last: "static_cast (Signed n) H = p - 2 * H" if "p = H"
        using that static_cast_signed_half [OF n] by (simp add: H_def)
      have last': "static_cast (Signed n) (p - 2 * H) = p - 2 * H"
        by (rule rt)
      show ?thesis
        using False test hi top small last
        by (simp add: from_twos_complement_def Let_def make_signed_t_def promote_small [OF True]
            arith_result_def representable_int32 c s rt M) 
    next
      case False
      then have wide: "sizeof_int \<le> n" by simp
      with ok have ne: "p \<noteq> H" by (simp add: H_def)
      with hi have hi': "H < p" by simp
      have c: "complement (Unsigned n) p = 2 * H - 1 - p"
      proof -
        have "(- p - 1) mod (2 * H) = - p - 1 + 2 * H"
          using p top by (intro mod_shift_up) simp_all
        then show ?thesis by (simp add: complement_def static_cast_def not_int_def M)
      qed
      have a: "- p mod (2 * H) = 2 * H - p"
        using hi top H mod_shift_up [of "- p" "2 * H"] by simp
      have s: "static_cast (Signed n) (2 * H - p) = 2 * H - p"
        using n hi' top by (intro static_cast_signed_id) (simp_all add: H_def)
      have r: "representable (Signed n) (p - 2 * H)"
        using hi' top by (simp add: representable_def numeric_min_def numeric_max_def H_def)
      show ?thesis
        using \<open>\<not> p < H\<close> test r
        by (simp add: from_twos_complement_def Let_def make_signed_t_def promote_wide [OF wide]
            arith_result_def c a s rt M)
    qed
  qed
  then show ?thesis by (simp add: M) (simp add: H_def)
qed

lemma from_twos_complement_overflow:
  assumes "sizeof_int \<le> n"
  shows "from_twos_complement (Unsigned n) (2 ^ (8 * n - 1)) = Inl Signed_overflow"
proof -
  define H :: int where "H = 2 ^ (8 * n - 1)"
  have n: "0 < n" using assms by (simp add: sizeof_int_def)
  have M: "(2::int) ^ (8 * n) = 2 * H" using n by (simp add: H_def pow_width_split)
  have H: "0 < H" by (simp add: H_def)
  have test: "(H AND shift_left (promote (Unsigned n)) 1 (sizeof (Unsigned n) * CHAR_BIT - 1) = 0)
                \<longleftrightarrow> H < H"
    unfolding mask_value [OF n] H_def by (intro mask_test) simp_all
  have c: "complement (Unsigned n) H = H - 1"
  proof -
    have "(- H - 1) mod (2 * H) = - H - 1 + 2 * H"
      using H by (intro mod_shift_up) simp_all
    then show ?thesis by (simp add: complement_def static_cast_def not_int_def M)
  qed
  have a: "H mod (2 * H) = H" using H by (intro mod_pos_pos_trivial) simp_all
  have s: "static_cast (Signed n) H = - H"
    using static_cast_signed_half [OF n] by (simp add: H_def)
  have r: "\<not> representable (Signed n) H"
    by (simp add: representable_def numeric_max_def H_def)
  have "from_twos_complement (Unsigned n) H = Inl Signed_overflow"
    using test r
    by (simp add: from_twos_complement_def Let_def make_signed_t_def promote_wide [OF assms]
        arith_result_def c a s M)
  then show ?thesis by (simp add: H_def)
qed

section \<open>What \<^verbatim>\<open>std::copy_n\<close> leaves in memory\<close>

lemma next_it_next_it: "next_it (next_it it a) b = next_it it (a + b)"
  by (cases it) simp_all

lemma upt_Suc_shift: "map g [0..<Suc n] = g 0 # map (\<lambda>i. g (Suc i)) [0..<n]"
  by (induction n) simp_all

lemma copy_n_to_pointer:
  assumes "src \<noteq> dst"
    and "\<And>i. i < n \<Longrightarrow> designates (next_it first (int i)) = (src, int (f i)) \<and> f i < length (mem src)"
    and "q + n \<le> length (mem dst)"
  shows "copy_n mem first n (Pointer dst (int q)) =
           Inr (mem(dst := take q (mem dst) @ map (\<lambda>i. mem src ! f i) [0..<n] @ drop (q + n) (mem dst)))"
  using assms
proof (induction n arbitrary: mem first f q)
  case 0
  then show ?case by simp
next
  case (Suc n)
  have "designates (next_it first (int 0)) = (src, int (f 0)) \<and> f 0 < length (mem src)"
    by (rule Suc.prems(2)) simp
  moreover have "next_it first (int 0) = first" by (cases first) simp_all
  ultimately have d0: "designates first = (src, int (f 0))" and b0: "f 0 < length (mem src)"
    by simp_all
  have rd: "read_it mem first = Inr (mem src ! f 0)"
    using d0 b0 by (simp add: read_it_def)
  define mem' where "mem' = mem(dst := (mem dst)[q := mem src ! f 0])"
  have q: "q < length (mem dst)" using Suc.prems(3) by simp
  have wr: "write_it mem (Pointer dst (int q)) (mem src ! f 0) = Inr mem'"
    using q by (simp add: write_it_def mem'_def)
  have src': "mem' src = mem src" using Suc.prems(1) by (simp add: mem'_def)
  have dst': "mem' dst = (mem dst)[q := mem src ! f 0]" by (simp add: mem'_def)
  have step: "designates (next_it (next_it first 1) (int i)) = (src, int (f (Suc i)))
        \<and> f (Suc i) < length (mem' src)" if "i < n" for i
  proof -
    have "designates (next_it first (int (Suc i))) = (src, int (f (Suc i)))
        \<and> f (Suc i) < length (mem src)"
      by (rule Suc.prems(2)) (use that in simp)
    moreover have "next_it (next_it first 1) (int i) = next_it first (int (Suc i))"
      by (simp add: next_it_next_it)
    ultimately show ?thesis by (simp only: src')
  qed
  have len: "Suc q + n \<le> length (mem' dst)" using Suc.prems(3) by (simp add: dst')
  have ih: "copy_n mem' (next_it first 1) n (Pointer dst (int (Suc q))) =
      Inr (mem'(dst := take (Suc q) (mem' dst) @ map (\<lambda>i. mem' src ! f (Suc i)) [0..<n]
                        @ drop (Suc q + n) (mem' dst)))"
    by (rule Suc.IH [OF Suc.prems(1) step len])
  have tk: "take (Suc q) ((mem dst)[q := mem src ! f 0]) = take q (mem dst) @ [mem src ! f 0]"
    using q by (simp add: take_Suc_conv_app_nth)
  have nx: "next_it (Pointer dst (int q)) 1 = Pointer dst (int (Suc q))" by simp
  have upd: "mem'(dst := X) = mem(dst := X)" for X by (simp add: mem'_def)
  have e1: "copy_n mem first (Suc n) (Pointer dst (int q)) =
      copy_n mem' (next_it first 1) n (Pointer dst (int (Suc q)))"
    by (simp only: copy_n.simps rd wr nx sum.case)
  have e2: "take (Suc q) (mem' dst) @ map (\<lambda>i. mem' src ! f (Suc i)) [0..<n]
              @ drop (Suc q + n) (mem' dst)
          = take q (mem dst) @ map (\<lambda>i. mem src ! f i) [0..<Suc n] @ drop (q + Suc n) (mem dst)"
    unfolding src' dst' tk upt_Suc_shift by simp
  show ?case by (simp only: e1 ih e2 upd)
qed

lemma copy_n_to_reverse:
  assumes "src \<noteq> dst"
    and "\<And>i. i < n \<Longrightarrow> designates (next_it first (int i)) = (src, int (f i)) \<and> f i < length (mem src)"
    and "n \<le> q" "q \<le> length (mem dst)"
  shows "copy_n mem first n (Reverse_iterator dst (int q)) =
           Inr (mem(dst := take (q - n) (mem dst) @ rev (map (\<lambda>i. mem src ! f i) [0..<n]) @ drop q (mem dst)))"
  using assms
proof (induction n arbitrary: mem first f q)
  case 0
  then show ?case by simp
next
  case (Suc n)
  have "designates (next_it first (int 0)) = (src, int (f 0)) \<and> f 0 < length (mem src)"
    by (rule Suc.prems(2)) simp
  moreover have "next_it first (int 0) = first" by (cases first) simp_all
  ultimately have d0: "designates first = (src, int (f 0))" and b0: "f 0 < length (mem src)"
    by simp_all
  have rd: "read_it mem first = Inr (mem src ! f 0)"
    using d0 b0 by (simp add: read_it_def)
  define mem' where "mem' = mem(dst := (mem dst)[q - 1 := mem src ! f 0])"
  have q: "0 < q" "q - 1 < length (mem dst)" using Suc.prems(3,4) by simp_all
  have qi: "int q - 1 = int (q - 1)" using q by simp
  have des: "designates (Reverse_iterator dst (int q)) = (dst, int (q - 1))"
    by (simp only: designates.simps qi)
  have wr: "write_it mem (Reverse_iterator dst (int q)) (mem src ! f 0) = Inr mem'"
    unfolding write_it_def des using q(2) by (simp add: mem'_def)
  have src': "mem' src = mem src" using Suc.prems(1) by (simp add: mem'_def)
  have dst': "mem' dst = (mem dst)[q - 1 := mem src ! f 0]" by (simp add: mem'_def)
  have step: "designates (next_it (next_it first 1) (int i)) = (src, int (f (Suc i)))
        \<and> f (Suc i) < length (mem' src)" if "i < n" for i
  proof -
    have "designates (next_it first (int (Suc i))) = (src, int (f (Suc i)))
        \<and> f (Suc i) < length (mem src)"
      by (rule Suc.prems(2)) (use that in simp)
    moreover have "next_it (next_it first 1) (int i) = next_it first (int (Suc i))"
      by (simp add: next_it_next_it)
    ultimately show ?thesis by (simp only: src')
  qed
  have len: "n \<le> q - 1" "q - 1 \<le> length (mem' dst)" using Suc.prems(3,4) by (simp_all add: dst')
  have ih: "copy_n mem' (next_it first 1) n (Reverse_iterator dst (int (q - 1))) =
      Inr (mem'(dst := take (q - 1 - n) (mem' dst) @ rev (map (\<lambda>i. mem' src ! f (Suc i)) [0..<n])
                        @ drop (q - 1) (mem' dst)))"
    by (rule Suc.IH [OF Suc.prems(1) step len])
  have dr: "drop (q - 1) ((mem dst)[q - 1 := mem src ! f 0]) = (mem src ! f 0) # drop q (mem dst)"
    using q by (simp add: upd_conv_take_nth_drop)
  have nx: "next_it (Reverse_iterator dst (int q)) 1 = Reverse_iterator dst (int (q - 1))"
    by (simp only: next_it.simps qi)
  have upd: "mem'(dst := X) = mem(dst := X)" for X by (simp add: mem'_def)
  have tk: "take (q - 1 - n) ((mem dst)[q - 1 := mem src ! f 0]) = take (q - Suc n) (mem dst)"
    by simp
  have e1: "copy_n mem first (Suc n) (Reverse_iterator dst (int q)) =
      copy_n mem' (next_it first 1) n (Reverse_iterator dst (int (q - 1)))"
    by (simp only: copy_n.simps rd wr nx sum.case)
  have e2: "take (q - 1 - n) (mem' dst) @ rev (map (\<lambda>i. mem' src ! f (Suc i)) [0..<n])
              @ drop (q - 1) (mem' dst)
          = take (q - Suc n) (mem dst) @ rev (map (\<lambda>i. mem src ! f i) [0..<Suc n]) @ drop q (mem dst)"
    unfolding src' dst' dr tk upt_Suc_shift by simp
  show ?case by (simp only: e1 ih e2 upd)
qed

section \<open>Bytes of an integer\<close>

lemma pow256: "(256::int) ^ n = 2 ^ (8 * n)"
  by (simp add: power_mult)

lemma uint_byte_of: "uint (byte_of u i) = (u div 256 ^ i) mod 256"
  by (simp add: byte_of_def uint_word_of_int take_bit_eq_mod)

lemma unsigned_of_lsb_first_append:
  "unsigned_of_lsb_first (xs @ ys) =
     unsigned_of_lsb_first xs + 256 ^ length xs * unsigned_of_lsb_first ys"
  by (induction xs) (simp_all add: algebra_simps)

lemma unsigned_of_lsb_first_nonneg: "0 \<le> unsigned_of_lsb_first xs"
  by (induction xs) simp_all

lemma unsigned_of_lsb_first_less: "unsigned_of_lsb_first xs < 256 ^ length xs"
proof (induction xs)
  case Nil
  then show ?case by simp
next
  case (Cons b xs)
  have "uint b < 256" using uint_bounded [of b] by simp
  moreover have "unsigned_of_lsb_first xs + 1 \<le> 256 ^ length xs" using Cons.IH by simp
  then have "256 * (unsigned_of_lsb_first xs + 1) \<le> 256 * 256 ^ length xs"
    by (intro mult_left_mono) simp_all
  ultimately show ?case by (simp add: algebra_simps)
qed

lemma unsigned_of_bytes_from:
  "unsigned_of_lsb_first (map (byte_of u) [a..<a + k]) = (u div 256 ^ a) mod 256 ^ k"
proof (induction k arbitrary: a)
  case 0
  then show ?case by simp
next
  case (Suc k)
  have "[a..<a + Suc k] = a # [Suc a..<Suc a + k]"
    by (simp add: upt_conv_Cons del: upt_Suc)
  then have "unsigned_of_lsb_first (map (byte_of u) [a..<a + Suc k]) =
      uint (byte_of u a) + 256 * unsigned_of_lsb_first (map (byte_of u) [Suc a..<Suc a + k])"
    by (simp del: upt_Suc)
  also have "\<dots> = (u div 256 ^ a) mod 256 + 256 * ((u div 256 ^ Suc a) mod 256 ^ k)"
    by (simp only: Suc.IH uint_byte_of)
  also have "u div 256 ^ Suc a = (u div 256 ^ a) div 256"
  proof -
    have "u div (256 ^ a * 256) = (u div 256 ^ a) div 256"
      by (rule zdiv_zmult2_eq) simp
    then show ?thesis by (simp add: mult.commute)
  qed
  also have "(u div 256 ^ a) mod 256 + 256 * ((u div 256 ^ a) div 256 mod 256 ^ k)
      = (u div 256 ^ a) mod 256 ^ Suc k"
    using zmod_zmult2_eq [of "256 ^ k" "u div 256 ^ a" 256] by simp
  finally show ?case .
qed

lemma unsigned_of_low_bytes: "unsigned_of_lsb_first (low_bytes n v) = v mod 256 ^ n"
  using unsigned_of_bytes_from [of v 0 n] by (simp add: low_bytes_def)

lemma length_low_bytes [simp]: "length (low_bytes n v) = n"
  by (simp add: low_bytes_def)

lemma byte_of_mod:
  assumes "i < n"
  shows "byte_of (v mod 2 ^ (8 * n)) i = byte_of v i"
proof -
  have "take_bit 8 (drop_bit (8 * i) (take_bit (8 * n) v)) = take_bit 8 (drop_bit (8 * i) v)"
  proof -
    from assms have "8 \<le> 8 * n - 8 * i" by simp
    then show ?thesis by (simp add: drop_bit_take_bit min_def)
  qed
  then have "((v mod 2 ^ (8 * n)) div 2 ^ (8 * i)) mod 2 ^ 8 = (v div 2 ^ (8 * i)) mod 2 ^ 8"
    by (simp only: take_bit_eq_mod drop_bit_eq_div)
  then have "((v mod 2 ^ (8 * n)) div 256 ^ i) mod 256 = (v div 256 ^ i) mod 256"
    by (simp add: pow256)
  then have "uint (byte_of (v mod 2 ^ (8 * n)) i) = uint (byte_of v i)"
    by (simp only: uint_byte_of)
  then show ?thesis by (simp only: word_uint_eq_iff)
qed

lemma low_bytes_mod:
  assumes "k \<le> n"
  shows "low_bytes k (v mod 2 ^ (8 * n)) = low_bytes k v"
  using assms by (simp add: low_bytes_def byte_of_mod)

lemma byte_of_zero: "byte_of 0 i = 0"
  by (simp add: byte_of_def)

lemma byte_of_minus_one: "byte_of (- 1) i = 255"
proof -
  have "(- 1 :: int) div 256 ^ i = - 1"
    by (simp add: div_eq_minus1)
  then show ?thesis by (simp add: byte_of_def)
qed

lemma unsigned_replicate_zero: "unsigned_of_lsb_first (replicate k 0) = 0"
  by (induction k) simp_all

lemma unsigned_replicate_ones: "unsigned_of_lsb_first (replicate k 255) = 256 ^ k - 1"
  by (induction k) simp_all

lemma byte_msb_test: "(b AND (0x80 :: byte) \<noteq> 0) \<longleftrightarrow> 128 \<le> uint b"
proof -
  have "(b AND 0x80 = 0) \<longleftrightarrow> uint (b AND 0x80) = 0"
    by (simp add: uint_0_iff)
  also have "uint (b AND 0x80) = uint b AND 2 ^ 7"
    by (simp add: uint_and)
  also have "(uint b AND 2 ^ 7 = 0) \<longleftrightarrow> uint b < 2 ^ 7"
    using uint_bounded [of b] by (intro mask_test) simp_all
  finally show ?thesis by auto
qed

section \<open>The copies of \<^verbatim>\<open>assign_value\<close> and \<^verbatim>\<open>get_value\<close> on a little-endian host\<close>

lemma frame_simps [simp]:
  "frame d u This_data = d" "frame d u Local_uvalue = u"
  by (simp_all add: frame_def)

lemma frame_update_data: "(frame d u)(This_data := d') = frame d' u"
  by (rule ext) (simp add: frame_def split: object.splits)

lemma frame_update_uvalue: "(frame d u)(Local_uvalue := u') = frame d u'"
  by (rule ext) (simp add: frame_def split: object.splits)

lemma object_representation_Little:
  "object_representation Little t u = low_bytes (sizeof t) u"
  by (simp add: object_representation_def low_bytes_def)

lemma low_bytes_nth: "i < n \<Longrightarrow> low_bytes n u ! i = byte_of u i"
  by (simp add: low_bytes_def)

lemma map_nth_low_bytes:
  assumes "k \<le> n"
  shows "map (\<lambda>i. low_bytes n u ! i) [0..<k] = low_bytes k u"
  using assms by (simp add: low_bytes_def)

lemma map_nth_rev:
  "map (\<lambda>i. d ! (length d - 1 - i)) [0..<length d] = rev d"
proof -
  have "map (\<lambda>i. d ! (length d - 1 - i)) [0..<length d] = map (\<lambda>i. rev d ! i) [0..<length (rev d)]"
    by (simp add: rev_nth)
  also have "\<dots> = rev d" by (rule map_nth)
  finally show ?thesis .
qed

lemma drop_low_bytes_zero: "drop k (low_bytes n 0) = replicate (n - k) 0"
  by (intro nth_equalityI) (simp_all add: low_bytes_def byte_of_zero)

lemma low_bytes_minus_one: "low_bytes n (- 1) = replicate n 255"
  by (intro nth_equalityI) (simp_all add: low_bytes_def byte_of_minus_one)

lemma in_byte_order_involution [simp]: "in_byte_order T (in_byte_order T bs) = bs"
  by (simp add: in_byte_order_def)

lemma length_in_byte_order [simp]: "length (in_byte_order T bs) = length bs"
  by (simp add: in_byte_order_def)

lemma copy_into_data:
  assumes "Num_bytes T \<le> n" "length d = Num_bytes T"
  shows "copy_n (frame d (low_bytes n u)) (little_endian_byte_iterator Little Local_uvalue)
           (Num_bytes T) (data_begin_little_endian T)
         = Inr (frame (in_byte_order T (low_bytes (Num_bytes T) u)) (low_bytes n u))"
proof -
  let ?mem = "frame d (low_bytes n u)"
  have rd: "designates (next_it (Pointer Local_uvalue 0) (int i)) = (Local_uvalue, int i)
            \<and> i < length (?mem Local_uvalue)" if "i < Num_bytes T" for i
    using that assms by simp
  show ?thesis
  proof (cases "Byte_order T")
    case Little
    have "copy_n ?mem (Pointer Local_uvalue 0) (Num_bytes T) (Pointer This_data (int 0)) =
        Inr (?mem(This_data := take 0 (?mem This_data)
               @ map (\<lambda>i. ?mem Local_uvalue ! i) [0..<Num_bytes T]
               @ drop (0 + Num_bytes T) (?mem This_data)))"
      by (rule copy_n_to_pointer [where f = "\<lambda>i. i"]) (use rd assms in simp_all)
    then show ?thesis
      using assms Little
      by (simp add: little_endian_byte_iterator_def data_begin_little_endian_def
          map_nth_low_bytes frame_update_data in_byte_order_def)
  next
    case Big
    have "copy_n ?mem (Pointer Local_uvalue 0) (Num_bytes T)
            (Reverse_iterator This_data (int (Num_bytes T))) =
        Inr (?mem(This_data := take (Num_bytes T - Num_bytes T) (?mem This_data)
               @ rev (map (\<lambda>i. ?mem Local_uvalue ! i) [0..<Num_bytes T])
               @ drop (Num_bytes T) (?mem This_data)))"
      by (rule copy_n_to_reverse [where f = "\<lambda>i. i"]) (use rd assms in simp_all)
    then show ?thesis
      using assms Big
      by (simp add: little_endian_byte_iterator_def data_begin_little_endian_def
          map_nth_low_bytes frame_update_data in_byte_order_def)
  qed
qed

lemma copy_into_carrier:
  assumes "Num_bytes T \<le> length c" "length d = Num_bytes T"
  shows "copy_n (frame d c) (data_begin_little_endian T) (Num_bytes T)
           (little_endian_byte_iterator Little Local_uvalue)
         = Inr (frame d (in_byte_order T d @ drop (Num_bytes T) c))"
proof -
  let ?mem = "frame d c"
  show ?thesis
  proof (cases "Byte_order T")
    case Little
    have rd: "designates (next_it (Pointer This_data 0) (int i)) = (This_data, int i)
            \<and> i < length (?mem This_data)" if "i < Num_bytes T" for i
      using that assms by simp
    have "copy_n ?mem (Pointer This_data 0) (Num_bytes T) (Pointer Local_uvalue (int 0)) =
        Inr (?mem(Local_uvalue := take 0 (?mem Local_uvalue)
               @ map (\<lambda>i. ?mem This_data ! i) [0..<Num_bytes T]
               @ drop (0 + Num_bytes T) (?mem Local_uvalue)))"
      by (rule copy_n_to_pointer [where f = "\<lambda>i. i"]) (use rd assms in simp_all)
    moreover have "map (\<lambda>i. d ! i) [0..<Num_bytes T] = d"
      using map_nth [of d] assms by simp
    ultimately show ?thesis
      using Little
      by (simp add: little_endian_byte_iterator_def data_begin_little_endian_def
          frame_update_uvalue in_byte_order_def)
  next
    case Big
    have rd: "designates (next_it (Reverse_iterator This_data (int (Num_bytes T))) (int i))
              = (This_data, int (Num_bytes T - 1 - i))
            \<and> Num_bytes T - 1 - i < length (?mem This_data)" if "i < Num_bytes T" for i
    proof -
      have "int (Num_bytes T) - int i - 1 = int (Num_bytes T - 1 - i)"
        using that by simp
      then show ?thesis using that assms by simp
    qed
    have "copy_n ?mem (Reverse_iterator This_data (int (Num_bytes T))) (Num_bytes T)
            (Pointer Local_uvalue (int 0)) =
        Inr (?mem(Local_uvalue := take 0 (?mem Local_uvalue)
               @ map (\<lambda>i. ?mem This_data ! (Num_bytes T - 1 - i)) [0..<Num_bytes T]
               @ drop (0 + Num_bytes T) (?mem Local_uvalue)))"
      by (rule copy_n_to_pointer [where f = "\<lambda>i. Num_bytes T - 1 - i"]) (use rd assms in simp_all)
    moreover have "map (\<lambda>i. d ! (Num_bytes T - 1 - i)) [0..<Num_bytes T] = rev d"
      using map_nth_rev [of d] assms by simp
    ultimately show ?thesis
      using Big
      by (simp add: little_endian_byte_iterator_def data_begin_little_endian_def
          frame_update_uvalue in_byte_order_def)
  qed
qed

lemma data_msb_value:
  assumes "0 < Num_bytes T" "length d = Num_bytes T"
  shows "data_msb T (frame d c) = Inr (last (in_byte_order T d))"
proof (cases "Byte_order T")
  case Little
  have "nat (int (Num_bytes T) - 1) = Num_bytes T - 1" using assms by arith
  moreover have "d \<noteq> []" using assms by auto
  ultimately show ?thesis
    using Little assms
    by (simp add: data_msb_def data_end_little_endian_def read_it_def in_byte_order_def
        last_conv_nth)
next
  case Big
  have "d \<noteq> []" using assms by auto
  then show ?thesis
    using Big assms
    by (simp add: data_msb_def data_end_little_endian_def read_it_def in_byte_order_def
        last_rev hd_conv_nth)
qed

section \<open>Assignment and read-back on a little-endian host\<close>

lemma msb_iff:
  assumes "bs \<noteq> []"
  shows "(last bs AND 0x80 \<noteq> 0) \<longleftrightarrow> 2 ^ (8 * length bs - 1) \<le> unsigned_of_lsb_first bs"
proof -
  define P :: int where "P = 256 ^ (length bs - 1)"
  define r where "r = unsigned_of_lsb_first (butlast bs)"
  define x where "x = uint (last bs)"
  have P: "0 < P" by (simp add: P_def)
  have r: "0 \<le> r" "r < P"
    using unsigned_of_lsb_first_nonneg [of "butlast bs"] unsigned_of_lsb_first_less [of "butlast bs"]
    by (simp_all add: r_def P_def)
  have "bs = butlast bs @ [last bs]" using assms by simp
  then have "unsigned_of_lsb_first bs = unsigned_of_lsb_first (butlast bs @ [last bs])" by simp
  then have U: "unsigned_of_lsb_first bs = r + P * x"
    by (simp only: unsigned_of_lsb_first_append) (simp add: r_def P_def x_def)
  have "8 * length bs - 1 = 7 + 8 * (length bs - 1)" using assms by (cases bs) simp_all
  then have H: "(2::int) ^ (8 * length bs - 1) = 128 * P"
    by (simp add: P_def power_add pow256)
  have "128 \<le> x \<longleftrightarrow> 128 * P \<le> r + P * x"
  proof
    assume "128 \<le> x"
    then have "P * 128 \<le> P * x" using P by (intro mult_left_mono) simp_all
    then show "128 * P \<le> r + P * x" using r by linarith
  next
    assume a: "128 * P \<le> r + P * x"
    show "128 \<le> x"
    proof (rule ccontr)
      assume "\<not> 128 \<le> x"
      then have "x \<le> 127" by simp
      then have "P * x \<le> P * 127" using P by (intro mult_left_mono) simp_all
      then show False using a r by linarith
    qed
  qed
  then show ?thesis unfolding byte_msb_test H U x_def .
qed

lemma scalar_value_Little: "scalar_value Little bs = unsigned_of_lsb_first bs"
  by (simp add: scalar_value_def)

lemma assign_value_Little:
  assumes T: "valid_parameters T" and len: "length (data self) = Num_bytes T"
    and v: "representable (Int_t T) v"
  shows "assign_value Little T self v =
           (if negation_overflows (Int_t T) v then Inl Signed_overflow
            else Inr (self\<lparr>data := in_byte_order T (low_bytes (Num_bytes T) v)\<rparr>))"
proof -
  define n where "n = sizeof (Int_t T)"
  have N: "0 < Num_bytes T" "Num_bytes T \<le> n"
    using T by (simp_all add: valid_parameters_def enabled_def n_def)
  then have n: "0 < n" by simp
  have cp: "copy_n (frame (data self) (object_representation Little (Unsigned n) (v mod 2 ^ (8 * n))))
              (little_endian_byte_iterator Little Local_uvalue) (Num_bytes T)
              (data_begin_little_endian T)
            = Inr (frame (in_byte_order T (low_bytes (Num_bytes T) v)) (low_bytes n (v mod 2 ^ (8 * n))))"
    using copy_into_data [OF N(2) len, of "v mod 2 ^ (8 * n)"] N
    by (simp add: object_representation_Little low_bytes_mod)
  show ?thesis
  proof (cases "Int_t T")
    case (Signed k)
    then have k: "k = n" by (simp add: n_def)
    show ?thesis
    proof (cases "negation_overflows (Int_t T) v")
      case True
      then have "sizeof_int \<le> n" "v = numeric_min (Signed n)"
        by (simp_all add: negation_overflows_def Signed k)
      then have "to_twos_complement (Signed n) v = Inl Signed_overflow"
        using to_twos_complement_overflow [of n] by simp
      then show ?thesis using True by (simp add: assign_value_def Signed k)
    next
      case False
      then have "\<not> (sizeof_int \<le> n \<and> v = numeric_min (Signed n))"
        by (simp add: negation_overflows_def Signed k)
      moreover have "representable (Signed n) v" using v by (simp add: Signed k)
      ultimately have "to_twos_complement (Signed n) v = Inr (v mod 2 ^ (8 * n))"
        using n by (intro to_twos_complement_value) simp_all
      then show ?thesis
        using False cp by (simp add: assign_value_def Signed k make_unsigned_t_def)
    qed
  next
    case (Unsigned k)
    then have k: "k = n" by (simp add: n_def)
    have "static_cast (Unsigned n) v = v mod 2 ^ (8 * n)" by (simp add: static_cast_def)
    then show ?thesis
      using cp by (simp add: assign_value_def Unsigned k make_unsigned_t_def negation_overflows_def)
  qed
qed


lemma all_ones:
  assumes "0 < n"
  shows "static_cast (Unsigned n) (complement (promote (Unsigned n)) 0) = (- 1) mod 2 ^ (8 * n)"
proof (cases "n < sizeof_int")
  case True
  have "complement (Signed 4) 0 = - 1"
    by (simp add: complement_def static_cast_int32_id)
  then show ?thesis by (simp add: promote_small [OF True] static_cast_def)
next
  case False
  then have "sizeof_int \<le> n" by simp
  then show ?thesis by (simp add: promote_wide complement_def static_cast_def)
qed

lemma load_carrier_Little:
  assumes T: "valid_parameters T" and len: "length (data self) = Num_bytes T"
  shows "load_carrier Little T self =
           Inr (frame (data self)
                  (in_byte_order T (data self) @
                   replicate (sizeof (Int_t T) - Num_bytes T)
                     (if is_signed_v (Int_t T) \<and> Num_bytes T < sizeof (Int_t T)
                         \<and> last (in_byte_order T (data self)) AND 0x80 \<noteq> 0
                      then 255 else 0)))"
proof -
  define n where "n = sizeof (Int_t T)"
  have N: "0 < Num_bytes T" "Num_bytes T \<le> n"
    using T by (simp_all add: valid_parameters_def enabled_def n_def)
  then have n: "0 < n" by simp
  have U: "make_unsigned_t (Int_t T) = Unsigned n" by (simp add: make_unsigned_t_def n_def)
  have msb: "data_msb T (frame (data self) c) = Inr (last (in_byte_order T (data self)))" for c
    by (rule data_msb_value [OF N(1) len])
  have zero: "copy_n (frame (data self) (object_representation Little (Unsigned n) 0))
                (data_begin_little_endian T) (Num_bytes T)
                (little_endian_byte_iterator Little Local_uvalue)
              = Inr (frame (data self) (in_byte_order T (data self) @ replicate (n - Num_bytes T) 0))"
    using copy_into_carrier [of T "low_bytes n 0" "data self"] N len
    by (simp add: object_representation_Little drop_low_bytes_zero)
  have "low_bytes n ((- 1) mod 2 ^ (8 * n)) = replicate n 255"
    by (simp add: low_bytes_mod low_bytes_minus_one)
  then have ones: "copy_n (frame (data self)
                  (object_representation Little (Unsigned n) ((- 1) mod 2 ^ (8 * n))))
                (data_begin_little_endian T) (Num_bytes T)
                (little_endian_byte_iterator Little Local_uvalue)
              = Inr (frame (data self) (in_byte_order T (data self) @ replicate (n - Num_bytes T) 255))"
    using copy_into_carrier [of T "replicate n 255" "data self"] N len
    by (simp add: object_representation_Little)
  show ?thesis
    unfolding load_carrier_def Let_def U all_ones [OF n] msb n_def [symmetric]
    using zero ones by simp
qed


lemma from_twos_complement_value':
  assumes "0 < n" "B = 2 ^ (8 * n)" "Hn = 2 ^ (8 * n - 1)" "0 \<le> p" "p < B"
    and "\<not> (sizeof_int \<le> n \<and> p = Hn)"
  shows "from_twos_complement (Unsigned n) p = Inr (if p < Hn then p else p - B)"
  using from_twos_complement_value [of n p] assms by simp

lemma self_update_data [simp]: "(self :: N_byte_int)\<lparr>data := data self\<rparr> = self"
  by simp

lemma get_value_Little:
  assumes T: "valid_parameters T" and len: "length (data self) = Num_bytes T"
  shows "get_value Little T self =
           (if negation_overflows (Int_t T) (decode_bytes T (in_byte_order T (data self)))
            then Inl Signed_overflow
            else Inr (decode_bytes T (in_byte_order T (data self)), self))"
proof -
  define n where "n = sizeof (Int_t T)"
  define N where "N = Num_bytes T"
  define bs where "bs = in_byte_order T (data self)"
  define m where "m = unsigned_of_lsb_first bs"
  define A :: int where "A = 2 ^ (8 * N)"
  define B :: int where "B = 2 ^ (8 * n)"
  define HN :: int where "HN = 2 ^ (8 * N - 1)"
  define Hn :: int where "Hn = 2 ^ (8 * n - 1)"
  have N: "0 < N" "N \<le> n"
    using T by (simp_all add: valid_parameters_def enabled_def n_def N_def)
  then have n: "0 < n" by simp
  have lbs: "length bs = N" by (simp add: bs_def len N_def)
  then have ne: "bs \<noteq> []" using N by auto
  have A: "A = 2 * HN" using N by (simp add: A_def HN_def pow_width_split)
  have B: "B = 2 * Hn" using n by (simp add: B_def Hn_def pow_width_split)
  have HN: "0 < HN" by (simp add: HN_def)
  have Hn: "0 < Hn" by (simp add: Hn_def)
  have m: "0 \<le> m" "m < A"
    using unsigned_of_lsb_first_nonneg [of bs] unsigned_of_lsb_first_less [of bs]
    by (simp_all add: m_def lbs A_def pow256)
  have AB: "A \<le> B" unfolding A_def B_def using N by (intro power_increasing) simp_all
  have msb: "(last bs AND 0x80 \<noteq> 0) \<longleftrightarrow> HN \<le> m"
    using msb_iff [OF ne] by (simp add: lbs HN_def m_def)
  have tc: "twos_complement_interpretation bs = (if m < HN then m else m - A)"
    by (simp add: twos_complement_interpretation_def Let_def m_def lbs HN_def A_def)
  have U: "make_unsigned_t (Int_t T) = Unsigned n" by (simp add: make_unsigned_t_def n_def)
  have lc: "load_carrier Little T self =
      Inr (frame (data self)
             (bs @ replicate (n - N)
                     (if is_signed_v (Int_t T) \<and> N < n \<and> last bs AND 0x80 \<noteq> 0 then 255 else 0)))"
    using load_carrier_Little [OF T len] by (simp add: n_def N_def bs_def)
  have sv: "scalar_value Little (bs @ replicate k c) = m + A * unsigned_of_lsb_first (replicate k c)"
    for k c
    by (simp add: scalar_value_Little unsigned_of_lsb_first_append m_def lbs A_def pow256)
  have "get_value Little T self =
           (if negation_overflows (Int_t T) (decode_bytes T bs) then Inl Signed_overflow
            else Inr (decode_bytes T bs, self))"
  proof (cases "Int_t T")
    case (Unsigned k)
    then have k: "k = n" by (simp add: n_def)
    have "static_cast (Unsigned n) m = m"
      using m AB by (intro static_cast_unsigned_id) (simp_all add: B_def)
    moreover have "decode_bytes T bs = m" by (simp add: decode_bytes_def Unsigned m_def)
    ultimately show ?thesis
      unfolding get_value_def lc
      by (simp add: Unsigned k sv unsigned_replicate_zero negation_overflows_def)
  next
    case (Signed k)
    then have ty: "Int_t T = Signed n" by (simp add: n_def)
    have db: "decode_bytes T bs = (if m < HN then m else m - A)"
      by (simp add: decode_bytes_def ty tc)
    have no: "negation_overflows (Signed n) v \<longleftrightarrow> sizeof_int \<le> n \<and> v = - Hn" for v
      by (simp add: negation_overflows_def numeric_min_def Hn_def)
    have mu: "make_unsigned_t (Signed n) = Unsigned n" by (simp add: make_unsigned_t_def)
    show ?thesis
    proof (cases "N < n")
      case True
      have "8 * N + 8 \<le> 8 * n" using True by simp
      then have "(2::int) ^ (8 * N + 8) \<le> 2 ^ (8 * n)" by (intro power_increasing) simp_all
      then have big: "256 * A \<le> B" by (simp add: A_def B_def power_add)
      have fill: "A * (256 ^ (n - N) - 1) = B - A"
      proof -
        have "A * 256 ^ (n - N) = B"
          using N by (simp add: A_def B_def pow256 flip: power_add)
        then show ?thesis by (simp add: algebra_simps)
      qed
      show ?thesis
      proof (cases "HN \<le> m")
        case True
        have cv: "scalar_value Little (bs @ replicate (n - N) 255) = m + B - A"
          unfolding sv unsigned_replicate_ones fill by simp
        have r: "from_twos_complement (Unsigned n) (m + B - A) =
            Inr (if m + B - A < Hn then m + B - A else m + B - A - B)"
          using m A B HN big True
          by (intro from_twos_complement_value' [OF n B_def Hn_def]) simp_all
        have "\<not> m + B - A < Hn" using m A B HN big True by simp
        then have r': "from_twos_complement (Unsigned n) (m + B - A) = Inr (m - A)"
          using r by simp
        have d: "decode_bytes T bs = m - A" using True db by simp
        have o: "\<not> negation_overflows (Signed n) (m - A)"
          using m A B HN big True by (simp add: no)
        show ?thesis
          unfolding get_value_def lc d
          using True \<open>N < n\<close> o
          by (simp add: ty mu msb cv r')
      next
        case False
        have cv: "scalar_value Little (bs @ replicate (n - N) 0) = m"
          unfolding sv unsigned_replicate_zero by simp
        have r: "from_twos_complement (Unsigned n) m = Inr (if m < Hn then m else m - B)"
          using m A B HN big False
          by (intro from_twos_complement_value' [OF n B_def Hn_def]) simp_all
        have "m < Hn" using m A B HN big False by simp
        then have r': "from_twos_complement (Unsigned n) m = Inr m"
          using r by simp
        have d: "decode_bytes T bs = m" using False db by simp
        have o: "\<not> negation_overflows (Signed n) m"
          using m Hn by (simp add: no)
        show ?thesis
          unfolding get_value_def lc d
          using False \<open>N < n\<close> o
          by (simp add: ty mu msb cv r')
      qed
    next
      case False
      then have eq: "N = n" using N by simp
      then have AB': "A = B" "HN = Hn" by (simp_all add: A_def B_def HN_def Hn_def)
      have cv: "scalar_value Little (bs @ replicate (n - N) c) = m" for c
        unfolding sv eq by simp
      show ?thesis
      proof (cases "sizeof_int \<le> n \<and> m = Hn")
        case True
        then have r': "from_twos_complement (Unsigned n) m = Inl Signed_overflow"
          using from_twos_complement_overflow [of n] by (simp add: Hn_def)
        have "(if m < HN then m else m - A) = - Hn"
          using True AB' B by simp
        then have o: "negation_overflows (Signed n) (decode_bytes T bs)"
          using True by (simp add: no db)
        show ?thesis
          unfolding get_value_def lc
          using o by (simp add: ty mu cv r')
      next
        case False
        then have r: "from_twos_complement (Unsigned n) m = Inr (if m < Hn then m else m - B)"
          using m AB'
          by (intro from_twos_complement_value' [OF n B_def Hn_def]) simp_all
        have d: "decode_bytes T bs = (if m < Hn then m else m - B)"
          using db AB' by simp
        have "\<not> (sizeof_int \<le> n \<and> (if m < Hn then m else m - B) = - Hn)"
          using False m AB' B HN Hn by auto
        then have o: "\<not> negation_overflows (Signed n) (if m < Hn then m else m - B)"
          unfolding no .
        show ?thesis
          unfolding get_value_def lc d
          using o by (simp add: ty mu cv r)
      qed
    qed
  qed
  then show ?thesis by (simp only: bs_def)
qed

section \<open>Truncation and the round trip\<close>

lemma low_native_pattern:
  assumes "k \<le> n"
  shows "(v mod 2 ^ (8 * n)) mod 2 ^ (8 * k) = (v::int) mod 2 ^ (8 * k)"
proof -
  have "(2::int) ^ (8 * k) dvd 2 ^ (8 * n)" using assms by (intro le_imp_power_dvd) simp
  then show ?thesis by (rule mod_mod_cancel)
qed

lemma decode_low_bytes:
  assumes "valid_parameters T"
  shows "decode_bytes T (low_bytes (Num_bytes T) v) = truncated T v"
proof -
  have N: "Num_bytes T \<le> sizeof (Int_t T)"
    using assms by (simp add: valid_parameters_def enabled_def)
  have low: "native_pattern (Int_t T) v mod 2 ^ (8 * Num_bytes T) = v mod 2 ^ (8 * Num_bytes T)"
    using low_native_pattern [OF N, of v]
    by (cases "Int_t T") (simp_all add: native_pattern_def)
  show ?thesis
    by (auto simp add: decode_bytes_def truncated_def Let_def low
        twos_complement_interpretation_def unsigned_of_low_bytes pow256)
qed

lemma truncated_eq:
  assumes T: "valid_parameters T" and H: "H = 2 ^ (8 * Num_bytes T - 1)"
  shows "truncated T v =
           (if is_signed_v (Int_t T) \<and> H \<le> v mod (2 * H) then v mod (2 * H) - 2 * H
            else v mod (2 * H))"
proof -
  have N: "0 < Num_bytes T" "Num_bytes T \<le> sizeof (Int_t T)"
    using T by (simp_all add: valid_parameters_def enabled_def)
  have M: "(2::int) ^ (8 * Num_bytes T) = 2 * H" using N by (simp add: H pow_width_split)
  have "native_pattern (Int_t T) v mod 2 ^ (8 * Num_bytes T) = v mod 2 ^ (8 * Num_bytes T)"
    using low_native_pattern [OF N(2), of v]
    by (cases "Int_t T") (simp_all add: native_pattern_def)
  then show ?thesis
    unfolding truncated_def Let_def by (simp only: M H [symmetric])
qed

lemma truncated_fits:
  assumes T: "valid_parameters T" and v: "fits T v"
  shows "truncated T v = v"
proof -
  define H :: int where "H = 2 ^ (8 * Num_bytes T - 1)"
  have N: "0 < Num_bytes T"
    using T by (simp_all add: valid_parameters_def)
  have M: "(2::int) ^ (8 * Num_bytes T) = 2 * H" using N by (simp add: H_def pow_width_split)
  have H: "0 < H" by (simp add: H_def)
  note tr = truncated_eq [OF T H_def, of v]
  show ?thesis
  proof (cases "is_signed_v (Int_t T)")
    case True
    with v have r: "- H \<le> v" "v < H" by (simp_all add: fits_def H_def)
    show ?thesis
    proof (cases "0 \<le> v")
      case True
      then have "v mod (2 * H) = v" using r by (intro mod_pos_pos_trivial) simp_all
      then show ?thesis using r tr by simp
    next
      case False
      then have "v mod (2 * H) = v + 2 * H" using r by (intro mod_shift_up) simp_all
      then show ?thesis using r tr \<open>is_signed_v (Int_t T)\<close> by simp
    qed
  next
    case False
    with v have r: "0 \<le> v" "v < 2 * H" by (simp_all add: fits_def M)
    then have "v mod (2 * H) = v" by (intro mod_pos_pos_trivial) simp_all
    then show ?thesis using False tr by simp
  qed
qed

lemma truncated_range:
  assumes T: "valid_parameters T" and s: "is_signed_v (Int_t T)"
  shows "- (2 ^ (8 * Num_bytes T - 1)) \<le> truncated T v \<and> truncated T v < 2 ^ (8 * Num_bytes T - 1)"
proof -
  define H :: int where "H = 2 ^ (8 * Num_bytes T - 1)"
  have H: "0 < H" by (simp add: H_def)
  define r where "r = v mod (2 * H)"
  have r: "0 \<le> r" "r < 2 * H" using H by (simp_all add: r_def)
  have "truncated T v = (if H \<le> r then r - 2 * H else r)"
    using truncated_eq [OF T H_def, of v] s by (simp add: r_def)
  then have "- H \<le> truncated T v \<and> truncated T v < H"
    using r H by auto
  then show ?thesis by (simp only: H_def)
qed

lemma representable_fits:
  assumes "Num_bytes T = sizeof (Int_t T)" "representable (Int_t T) v"
  shows "fits T v"
  using assms
  by (cases "Int_t T") (simp_all add: fits_def representable_def numeric_min_def numeric_max_def)

lemma truncated_no_overflow:
  assumes T: "valid_parameters T" and v: "representable (Int_t T) v"
    and ok: "\<not> negation_overflows (Int_t T) v"
  shows "\<not> negation_overflows (Int_t T) (truncated T v)"
proof (cases "Num_bytes T = sizeof (Int_t T)")
  case True
  then have "truncated T v = v" using T v by (intro truncated_fits representable_fits)
  then show ?thesis using ok by simp
next
  case False
  then have lt: "Num_bytes T < sizeof (Int_t T)"
    using T by (simp add: valid_parameters_def enabled_def)
  show ?thesis
  proof (cases "is_signed_v (Int_t T)")
    case True
    have "8 * Num_bytes T - 1 < 8 * sizeof (Int_t T) - 1" using lt T
      by (simp add: valid_parameters_def)
    then have "(2::int) ^ (8 * Num_bytes T - 1) < 2 ^ (8 * sizeof (Int_t T) - 1)"
      by (intro power_strict_increasing) simp_all
    then have "truncated T v \<noteq> - (2 ^ (8 * sizeof (Int_t T) - 1))"
      using truncated_range [OF T True, of v] by linarith
    then show ?thesis
      using True by (cases "Int_t T") (simp_all add: negation_overflows_def numeric_min_def)
  next
    case False
    then show ?thesis by (simp add: negation_overflows_def)
  qed
qed

lemma read_back:
  assumes T: "valid_parameters T" and len: "length (data s0) = Num_bytes T"
    and v: "representable (Int_t T) v" and ok: "\<not> negation_overflows (Int_t T) v"
  shows "assign_value Little T s0 v = Inr (s0\<lparr>data := in_byte_order T (low_bytes (Num_bytes T) v)\<rparr>)"
    and "get_value Little T (s0\<lparr>data := in_byte_order T (low_bytes (Num_bytes T) v)\<rparr>) =
           Inr (truncated T v, s0\<lparr>data := in_byte_order T (low_bytes (Num_bytes T) v)\<rparr>)"
proof -
  show "assign_value Little T s0 v = Inr (s0\<lparr>data := in_byte_order T (low_bytes (Num_bytes T) v)\<rparr>)"
    using assign_value_Little [OF T len v] ok by simp
  let ?s = "s0\<lparr>data := in_byte_order T (low_bytes (Num_bytes T) v)\<rparr>"
  have l: "length (data ?s) = Num_bytes T" by simp
  have d: "decode_bytes T (in_byte_order T (data ?s)) = truncated T v"
    by (simp add: decode_low_bytes [OF T])
  show "get_value Little T ?s = Inr (truncated T v, ?s)"
    unfolding get_value_Little [OF T l] d
    using truncated_no_overflow [OF T v ok] by simp
qed

section \<open>Auxiliary facts about zero, the sign bit and the most significant byte\<close>

lemma low_bytes_zero: "low_bytes n 0 = replicate n 0"
  by (intro nth_equalityI) (simp_all add: low_bytes_def byte_of_zero)

lemma in_byte_order_replicate: "in_byte_order T (replicate n b) = replicate n b"
  by (simp add: in_byte_order_def)

lemma representable_zero: "representable t 0"
  by (simp add: representable_def numeric_min_def numeric_max_def)

lemma zero_no_overflow: "\<not> negation_overflows t 0"
  by (simp add: negation_overflows_def numeric_min_def)

lemma truncated_zero: "valid_parameters T \<Longrightarrow> truncated T 0 = 0"
  by (rule truncated_fits) (simp_all add: fits_def)

lemma bit7_test: "bit (b :: byte) 7 \<longleftrightarrow> b AND 0x80 \<noteq> 0"
  using and_exp_eq_0_iff_not_bit [of b 7] by simp

lemma msb_is_last:
  assumes "data self \<noteq> []"
  shows "last (in_byte_order T (data self)) = most_significant_byte T self"
  using assms by (simp add: in_byte_order_def most_significant_byte_def last_rev)

lemma twos_complement_interpretation_sign:
  assumes "bs \<noteq> []"
  shows "twos_complement_interpretation bs < 0 \<longleftrightarrow> last bs AND 0x80 \<noteq> 0"
proof -
  define m where "m = unsigned_of_lsb_first bs"
  define H :: int where "H = 2 ^ (8 * length bs - 1)"
  have "0 < length bs" using assms by simp
  then have M: "(2::int) ^ (8 * length bs) = 2 * H" by (simp add: H_def pow_width_split)
  have m: "0 \<le> m" "m < 2 * H"
    using unsigned_of_lsb_first_nonneg [of bs] unsigned_of_lsb_first_less [of bs]
    by (simp_all add: m_def pow256 M)
  have "twos_complement_interpretation bs = (if m < H then m else m - 2 * H)"
    by (simp add: twos_complement_interpretation_def Let_def m_def H_def M)
  then have "twos_complement_interpretation bs < 0 \<longleftrightarrow> H \<le> m" using m by auto
  then show ?thesis using msb_iff [OF assms] by (simp add: m_def H_def)
qed

section \<open>The behaviour on a little-endian host, the overflowing input apart\<close>

text \<open>
  The codec, construction, assignment and read-back at every input at which the product
  with \<open>-1\<close> does not overflow.
\<close>

lemma decode_encode:
  assumes "0 < n" "representable (Signed n) s" "\<not> negation_overflows (Signed n) s"
  shows "\<exists>p. to_twos_complement (Signed n) s = Inr p \<and> from_twos_complement (Unsigned n) p = Inr s"
proof -
  define H :: int where "H = 2 ^ (8 * n - 1)"
  define B :: int where "B = 2 ^ (8 * n)"
  have B: "B = 2 * H" using assms(1) by (simp add: B_def H_def pow_width_split)
  have H: "0 < H" by (simp add: H_def)
  have r: "- H \<le> s" "s < H"
    using assms(2) by (simp_all add: representable_def numeric_min_def numeric_max_def H_def)
  have ok: "\<not> (sizeof_int \<le> n \<and> s = - H)"
    using assms(3) by (simp add: negation_overflows_def numeric_min_def H_def)
  have enc: "to_twos_complement (Signed n) s = Inr (s mod B)"
    unfolding B_def using assms ok
    by (intro to_twos_complement_value) (simp_all add: numeric_min_def H_def)
  have p: "s mod B = (if 0 \<le> s then s else s + B)"
    using r B H by (simp add: mod_pos_pos_trivial mod_shift_up)
  have "from_twos_complement (Unsigned n) (s mod B) =
      Inr (if s mod B < H then s mod B else s mod B - B)"
    using r B H ok p
    by (intro from_twos_complement_value' [OF assms(1) B_def H_def]) auto
  also have "(if s mod B < H then s mod B else s mod B - B) = s"
    using r B H p by auto
  finally show ?thesis using enc by blast
qed

lemma encode_decode:
  assumes "0 < n" "0 \<le> p" "p < 2 ^ (8 * n)" "\<not> (sizeof_int \<le> n \<and> p = 2 ^ (8 * n - 1))"
  shows "\<exists>s. from_twos_complement (Unsigned n) p = Inr s \<and> to_twos_complement (Signed n) s = Inr p"
proof -
  define H :: int where "H = 2 ^ (8 * n - 1)"
  define B :: int where "B = 2 ^ (8 * n)"
  define s where "s = (if p < H then p else p - B)"
  have B: "B = 2 * H" using assms(1) by (simp add: B_def H_def pow_width_split)
  have H: "0 < H" by (simp add: H_def)
  have p: "0 \<le> p" "p < B" using assms by (simp_all add: B_def)
  have dec: "from_twos_complement (Unsigned n) p = Inr s"
    unfolding s_def using p assms(4)
    by (intro from_twos_complement_value' [OF assms(1) B_def H_def]) (simp_all add: H_def)
  have rH: "representable (Signed n) x \<longleftrightarrow> - H \<le> x \<and> x < H" for x
    by (simp add: representable_def numeric_min_def numeric_max_def H_def)
  have mH: "numeric_min (Signed n) = - H" by (simp add: numeric_min_def H_def)
  have pH: "\<not> (sizeof_int \<le> n \<and> p = H)" using assms(4) by (simp add: H_def)
  have r: "representable (Signed n) s"
    unfolding rH using p B H by (auto simp add: s_def)
  have ok: "\<not> (sizeof_int \<le> n \<and> s = numeric_min (Signed n))"
    unfolding mH using pH p B H by (auto simp add: s_def)
  have "to_twos_complement (Signed n) s = Inr (s mod B)"
    unfolding B_def using assms(1) r ok by (intro to_twos_complement_value)
  also have "s mod B = p"
    using p B H by (auto simp add: s_def mod_pos_pos_trivial mod_shift_up)
  finally show ?thesis using dec by blast
qed

lemma stored_layout:
  assumes "valid_parameters T" "length (data uninitialized) = Num_bytes T"
    and "representable (Int_t T) v" "\<not> negation_overflows (Int_t T) v"
  shows "\<exists>self. construct Little T uninitialized v = Inr self
           \<and> length (fst (bytes self)) = Num_bytes T
           \<and> fst (bytes self) =
               (if Byte_order T = Big then rev (low_bytes (Num_bytes T) v)
                else low_bytes (Num_bytes T) v)"
  using read_back(1) [OF assms]
  by (cases "Byte_order T") (simp_all add: construct_def bytes_def in_byte_order_def)

lemma round_trip:
  assumes "valid_parameters T" "length (data uninitialized) = Num_bytes T"
    and "representable (Int_t T) v" "\<not> negation_overflows (Int_t T) v"
  shows "\<exists>self. construct Little T uninitialized v = Inr self
           \<and> value_of Little T self = Inr (truncated T v, self)
           \<and> (fits T v \<longrightarrow> truncated T v = v)"
  using read_back [OF assms] truncated_fits [OF assms(1), of v]
  by (simp add: construct_def value_of_def)

lemma big_endian_bytes_reversed:
  assumes "valid_parameters T" "length (data u1) = Num_bytes T" "length (data u2) = Num_bytes T"
    and "representable (Int_t T) v" "\<not> negation_overflows (Int_t T) v"
  shows "\<exists>l b. construct Little (T\<lparr>Byte_order := Little\<rparr>) u1 v = Inr l
           \<and> construct Little (T\<lparr>Byte_order := Big\<rparr>) u2 v = Inr b
           \<and> fst (bytes b) = rev (fst (bytes l))"
proof -
  have L: "valid_parameters (T\<lparr>Byte_order := Little\<rparr>)" and B: "valid_parameters (T\<lparr>Byte_order := Big\<rparr>)"
    using assms(1) by (simp_all add: valid_parameters_def enabled_def)
  show ?thesis
    using read_back(1) [OF L, of u1 v] read_back(1) [OF B, of u2 v] assms
    by (simp add: construct_def bytes_def in_byte_order_def)
qed

lemma assignment_overwrites:
  assumes "valid_parameters T" "length (data s1) = Num_bytes T" "length (data s2) = Num_bytes T"
    and "representable (Int_t T) v" "\<not> negation_overflows (Int_t T) v"
  shows "\<exists>t1 t2. operator_assign Little T s1 v = Inr t1 \<and> operator_assign Little T s2 v = Inr t2
           \<and> fst (bytes t1) = fst (bytes t2)"
  using read_back(1) [OF assms(1,2,4,5)] read_back(1) [OF assms(1,3,4,5)]
  by (simp add: operator_assign_def bytes_def)

section \<open>The byte iterator on a big-endian host\<close>

lemma read_it_error: "read_it mem it = Inl e \<Longrightarrow> e = Out_of_bounds"
  by (auto simp add: read_it_def split: prod.splits if_splits)

lemma reverse_of_begin_designates:
  "designates (little_endian_byte_iterator Big scalar) = (scalar, - 1)"
  by (simp add: little_endian_byte_iterator_def)

lemma read_before_scalar:
  "read_it mem (little_endian_byte_iterator Big scalar) = Inl Out_of_bounds"
  by (simp add: read_it_def reverse_of_begin_designates)

lemma write_before_scalar:
  "write_it mem (little_endian_byte_iterator Big scalar) b = Inl Out_of_bounds"
  by (simp add: write_it_def reverse_of_begin_designates)

lemma arith_result_error: "arith_result t r = Inl e \<Longrightarrow> e = Signed_overflow"
  by (simp add: arith_result_def split: if_splits)

lemma to_twos_complement_error: "to_twos_complement t v = Inl e \<Longrightarrow> e = Signed_overflow"
  by (auto simp add: to_twos_complement_def Let_def split: sum.splits if_splits
      dest: arith_result_error)

lemma assign_value_Big:
  assumes "0 < Num_bytes T"
  shows "assign_value Big T self v = Inl Out_of_bounds
       \<or> assign_value Big T self v = Inl Signed_overflow"
proof -
  obtain k where k: "Num_bytes T = Suc k" using assms by (cases "Num_bytes T") simp_all
  have cp: "copy_n mem (little_endian_byte_iterator Big Local_uvalue) (Num_bytes T) result
          = Inl Out_of_bounds" for mem result
    by (simp add: k read_before_scalar)
  show ?thesis
  proof (cases "is_signed_v (Int_t T)")
    case True
    show ?thesis
    proof (cases "to_twos_complement (Int_t T) v")
      case (Inl e)
      then have "e = Signed_overflow" by (rule to_twos_complement_error)
      then show ?thesis using True Inl by (simp add: assign_value_def)
    next
      case (Inr u)
      then show ?thesis using True by (simp add: assign_value_def cp)
    qed
  next
    case False
    then show ?thesis by (simp add: assign_value_def cp)
  qed
qed

lemma get_value_Big:
  assumes "0 < Num_bytes T"
  shows "get_value Big T self = Inl Out_of_bounds"
proof -
  obtain k where k: "Num_bytes T = Suc k" using assms by (cases "Num_bytes T") simp_all
  have cp: "copy_n mem first (Num_bytes T) (little_endian_byte_iterator Big Local_uvalue)
          = Inl Out_of_bounds" for mem first
    using read_it_error [of mem first]
    by (cases "read_it mem first") (simp_all add: k write_before_scalar)
  have msb: "data_msb T mem = Inl e \<Longrightarrow> e = Out_of_bounds" for mem e
    unfolding data_msb_def by (rule read_it_error)
  have "load_carrier Big T self = Inl Out_of_bounds"
    using msb by (auto simp add: load_carrier_def Let_def cp split: sum.splits)
  then show ?thesis by (simp add: get_value_def)
qed

section \<open>Read-back writes the carrier only\<close>

lemma designates_next_it: "fst (designates (next_it it n)) = fst (designates it)"
  by (cases it) simp_all

lemma write_it_frame:
  assumes "write_it mem result b = Inr mem'" "fst (designates result) \<noteq> obj"
  shows "mem' obj = mem obj"
  using assms by (auto simp add: write_it_def split: prod.splits if_splits)

lemma copy_n_frame:
  assumes "copy_n mem first n result = Inr mem'" "fst (designates result) \<noteq> obj"
  shows "mem' obj = mem obj"
  using assms
proof (induction n arbitrary: mem first result)
  case 0
  then show ?case by simp
next
  case (Suc n)
  from Suc.prems(1) obtain b m1 where
    w: "write_it mem result b = Inr m1" and
    c: "copy_n m1 (next_it first 1) n (next_it result 1) = Inr mem'"
    by (auto split: sum.splits)
  have "fst (designates (next_it result 1)) \<noteq> obj"
    using Suc.prems(2) by (simp add: designates_next_it)
  then have "mem' obj = m1 obj" by (rule Suc.IH [OF c])
  also have "m1 obj = mem obj" by (rule write_it_frame [OF w Suc.prems(2)])
  finally show ?case .
qed

lemma load_carrier_frame:
  assumes "load_carrier native T self = Inr mem"
  shows "mem This_data = data self"
proof -
  have it: "fst (designates (little_endian_byte_iterator native Local_uvalue)) \<noteq> This_data"
    by (simp add: little_endian_byte_iterator_def)
  from assms obtain u where
    "copy_n (frame (data self) (object_representation native (make_unsigned_t (Int_t T)) u))
       (data_begin_little_endian T) (Num_bytes T)
       (little_endian_byte_iterator native Local_uvalue) = Inr mem"
    by (auto simp add: load_carrier_def Let_def split: sum.splits if_splits)
  from copy_n_frame [OF this it] show ?thesis by simp
qed

lemma get_value_frame:
  assumes "get_value native T self = Inr (r, self')"
  shows "self' = self"
proof -
  from assms obtain mem where
    l: "load_carrier native T self = Inr mem" and s: "self' = self\<lparr>data := mem This_data\<rparr>"
    by (auto simp add: get_value_def split: sum.splits if_splits)
  show ?thesis unfolding s load_carrier_frame [OF l] by simp
qed

section \<open>The claims of the specification\<close>

text \<open>
  Claim C1: the two codec functions are exact inverses over the full native width,
  \<open>to_twos_complement (from_twos_complement p) = p\<close> for every pattern and
  \<open>from_twos_complement (to_twos_complement s) = s\<close> for every signed value.
  For \<^verbatim>\<open>int32_t\<close> the product \<^verbatim>\<open>value * -1\<close> of \<^verbatim>\<open>to_twos_complement\<close> overflows at
  \<open>- 2 ^ 31\<close>, and so does the product in \<^verbatim>\<open>from_twos_complement\<close> at the pattern
  \<open>2 ^ 31\<close>: neither function has a result there, so neither composition gives its
  argument back.  At every other input the two lemmas \<open>decode_encode\<close> and
  \<open>encode_decode\<close> give the inverse laws.
\<close>

theorem codec_undefined_at_int32_min:
  "to_twos_complement (Signed 4) (- 2147483648) = Inl Signed_overflow \<and>
   from_twos_complement (Unsigned 4) 2147483648 = Inl Signed_overflow"
  using to_twos_complement_overflow [of 4] from_twos_complement_overflow [of 4]
  by (simp add: sizeof_int_def numeric_min_def)

text \<open>
  Claim C2: a value that fits in \<open>Num_bytes\<close> bytes is read back unchanged after
  construction or assignment.  With \<^verbatim>\<open>int32_t\<close> and four bytes the value \<open>- 2 ^ 31\<close>
  fits, and its construction is undefined: \<^verbatim>\<open>assign_value\<close> calls
  \<^verbatim>\<open>to_twos_complement\<close>, whose product overflows.  At every other input lemma
  \<open>round_trip\<close> gives the round trip.
\<close>

theorem round_trip_undefined_at_int32_min:
  "fits \<lparr>Int_t = Signed 4, Num_bytes = 4, Byte_order = Little\<rparr> (- 2147483648) \<and>
   representable (Signed 4) (- 2147483648) \<and>
   construct Little \<lparr>Int_t = Signed 4, Num_bytes = 4, Byte_order = Little\<rparr>
     \<lparr>data = [0, 0, 0, 0]\<rparr> (- 2147483648) = Inl Signed_overflow"
proof -
  let ?T = "\<lparr>Int_t = Signed 4, Num_bytes = 4, Byte_order = Little\<rparr>"
  have T: "valid_parameters ?T" by (simp add: valid_parameters_def enabled_def)
  have v: "representable (Int_t ?T) (- 2147483648)"
    by (simp add: representable_def numeric_min_def numeric_max_def)
  have "assign_value Little ?T \<lparr>data = [0, 0, 0, 0]\<rparr> (- 2147483648) = Inl Signed_overflow"
    using assign_value_Little [OF T _ v, of "\<lparr>data = [0, 0, 0, 0]\<rparr>"]
    by (simp add: negation_overflows_def numeric_min_def sizeof_int_def)
  then show ?thesis using v by (simp add: construct_def fits_def)
qed

text \<open>
  Claim C3: for a value outside the range of \<open>Num_bytes\<close> bytes, the read-back is the
  native pattern reduced modulo \<open>2 ^ (8 N)\<close> and decoded under the type's rule.  With
  \<^verbatim>\<open>int32_t\<close> and two bytes the value \<open>- 2 ^ 31\<close> is outside the range and its
  truncation is \<open>0\<close>, but its construction is undefined.  At every other input lemma
  \<open>round_trip\<close> gives the truncation.
\<close>

theorem truncation_undefined_at_int32_min:
  "\<not> fits \<lparr>Int_t = Signed 4, Num_bytes = 2, Byte_order = Little\<rparr> (- 2147483648) \<and>
   representable (Signed 4) (- 2147483648) \<and>
   truncated \<lparr>Int_t = Signed 4, Num_bytes = 2, Byte_order = Little\<rparr> (- 2147483648) = 0 \<and>
   construct Little \<lparr>Int_t = Signed 4, Num_bytes = 2, Byte_order = Little\<rparr>
     \<lparr>data = [0, 0]\<rparr> (- 2147483648) = Inl Signed_overflow"
proof -
  let ?T = "\<lparr>Int_t = Signed 4, Num_bytes = 2, Byte_order = Little\<rparr>"
  have T: "valid_parameters ?T" by (simp add: valid_parameters_def enabled_def)
  have v: "representable (Int_t ?T) (- 2147483648)"
    by (simp add: representable_def numeric_min_def numeric_max_def)
  have "assign_value Little ?T \<lparr>data = [0, 0]\<rparr> (- 2147483648) = Inl Signed_overflow"
    using assign_value_Little [OF T _ v, of "\<lparr>data = [0, 0]\<rparr>"]
    by (simp add: negation_overflows_def numeric_min_def sizeof_int_def)
  moreover have "truncated ?T (- 2147483648) = 0"
    by (simp add: truncated_def native_pattern_def)
  ultimately show ?thesis using v by (simp add: construct_def fits_def)
qed

text \<open>
  Claim C4: every operation is total for every input value, the extreme values of
  \<^verbatim>\<open>Int\<close> included.  For \<^verbatim>\<open>int64_t\<close> both codec functions are undefined at the extreme
  value \<open>- 2 ^ 63\<close> and at its pattern \<open>2 ^ 63\<close>.
\<close>

theorem codec_not_total_int64:
  "to_twos_complement (Signed 8) (numeric_min (Signed 8)) = Inl Signed_overflow \<and>
   from_twos_complement (Unsigned 8) 9223372036854775808 = Inl Signed_overflow"
  using to_twos_complement_overflow [of 8] from_twos_complement_overflow [of 8]
  by (simp add: sizeof_int_def)

text \<open>
  Claim C5: \<^verbatim>\<open>bytes()\<close> returns \<open>Num_bytes\<close> bytes, most significant first for a
  big-endian type and least significant first for a little-endian one, whatever the
  byte order of the host.  On a big-endian host \<^verbatim>\<open>little_endian_byte_iterator\<close> is the
  reverse iterator of the pointer to the first byte of the scalar, which designates the
  byte before the scalar: the first access of \<^verbatim>\<open>std::copy_n\<close> is outside the object, and
  neither construction nor read-back has a result.  On a little-endian host lemma
  \<open>stored_layout\<close> gives the layout.
\<close>

theorem big_endian_host_reads_before_scalar:
  "designates (little_endian_byte_iterator Big Local_uvalue) = (Local_uvalue, - 1) \<and>
   construct Big \<lparr>Int_t = Unsigned 4, Num_bytes = 2, Byte_order = Big\<rparr>
     \<lparr>data = [0, 0]\<rparr> 1 = Inl Out_of_bounds \<and>
   construct Big \<lparr>Int_t = Unsigned 4, Num_bytes = 2, Byte_order = Little\<rparr>
     \<lparr>data = [0, 0]\<rparr> 1 = Inl Out_of_bounds \<and>
   value_of Big \<lparr>Int_t = Unsigned 4, Num_bytes = 2, Byte_order = Big\<rparr>
     \<lparr>data = [0, 1]\<rparr> = Inl Out_of_bounds"
  using get_value_Big [of "\<lparr>Int_t = Unsigned 4, Num_bytes = 2, Byte_order = Big\<rparr>" "\<lparr>data = [0, 1]\<rparr>"]
  by (simp add: reverse_of_begin_designates construct_def assign_value_def value_of_def
      numeral_2_eq_2 read_before_scalar)

text \<open>
  Claim C6: for every value \<open>v\<close> the array of a big-endian instance constructed from
  \<open>v\<close> is the reverse of the array of a little-endian instance constructed from \<open>v\<close>.
  With \<^verbatim>\<open>int32_t\<close> neither construction from \<open>- 2 ^ 31\<close> has a result.  At every other
  input lemma \<open>big_endian_bytes_reversed\<close> gives the reversal.
\<close>

theorem reversal_undefined_at_int32_min:
  "construct Little \<lparr>Int_t = Signed 4, Num_bytes = 3, Byte_order = Little\<rparr>
     \<lparr>data = [0, 0, 0]\<rparr> (- 2147483648) = Inl Signed_overflow \<and>
   construct Little \<lparr>Int_t = Signed 4, Num_bytes = 3, Byte_order = Big\<rparr>
     \<lparr>data = [0, 0, 0]\<rparr> (- 2147483648) = Inl Signed_overflow"
proof -
  have v: "representable (Signed 4) (- 2147483648)"
    by (simp add: representable_def numeric_min_def numeric_max_def)
  have "assign_value Little \<lparr>Int_t = Signed 4, Num_bytes = 3, Byte_order = b\<rparr>
      \<lparr>data = [0, 0, 0]\<rparr> (- 2147483648) = Inl Signed_overflow" for b
    using assign_value_Little
      [of "\<lparr>Int_t = Signed 4, Num_bytes = 3, Byte_order = b\<rparr>" "\<lparr>data = [0, 0, 0]\<rparr>"
        "- 2147483648"] v
    by (simp add: valid_parameters_def enabled_def negation_overflows_def numeric_min_def
        sizeof_int_def)
  then show ?thesis by (simp add: construct_def)
qed

text \<open>
  Claim C7: for a signed \<^verbatim>\<open>Int\<close> and \<open>Num_bytes < sizeof Int\<close>, on a little-endian host:
  read-back of any stored bytes returns their two's-complement interpretation and leaves
  the instance as it was; the result is negative exactly when bit 7 of the most
  significant stored byte is set; and the carrier that is decoded holds the stored bytes,
  least significant first, followed by bytes that are all ones when that bit is set and
  all zeros otherwise.
\<close>

theorem read_back_sign_extension:
  assumes T: "valid_parameters T" and s: "is_signed_v (Int_t T)"
    and lt: "Num_bytes T < sizeof (Int_t T)" and len: "length (data self) = Num_bytes T"
  shows "\<exists>r. value_of Little T self = Inr (r, self)
           \<and> r = twos_complement_interpretation (in_byte_order T (data self))
           \<and> (r < 0 \<longleftrightarrow> bit (most_significant_byte T self) 7)
           \<and> load_carrier Little T self =
                Inr (frame (data self)
                       (in_byte_order T (data self) @
                        replicate (sizeof (Int_t T) - Num_bytes T)
                          (if bit (most_significant_byte T self) 7 then 255 else 0)))"
proof -
  define bs where "bs = in_byte_order T (data self)"
  define r where "r = twos_complement_interpretation bs"
  have N: "0 < Num_bytes T" using T by (simp add: valid_parameters_def)
  then have ne: "data self \<noteq> []" "bs \<noteq> []" using len by (auto simp: bs_def in_byte_order_def)
  have msb: "last bs = most_significant_byte T self"
    unfolding bs_def by (rule msb_is_last [OF ne(1)])
  have sign: "r < 0 \<longleftrightarrow> bit (most_significant_byte T self) 7"
    unfolding r_def twos_complement_interpretation_sign [OF ne(2)] msb bit7_test ..
  have d: "decode_bytes T bs = r" using s by (simp add: decode_bytes_def r_def)
  have no: "\<not> negation_overflows (Int_t T) r"
  proof -
    define H :: int where "H = 2 ^ (8 * Num_bytes T - 1)"
    define m where "m = unsigned_of_lsb_first bs"
    have lbs: "length bs = Num_bytes T" by (simp add: bs_def len)
    have M: "(2::int) ^ (8 * Num_bytes T) = 2 * H" using N by (simp add: H_def pow_width_split)
    have m: "0 \<le> m" "m < 2 * H"
      using unsigned_of_lsb_first_nonneg [of bs] unsigned_of_lsb_first_less [of bs]
      by (simp_all add: m_def pow256 M lbs)
    have "r = (if m < H then m else m - 2 * H)"
      by (simp add: r_def twos_complement_interpretation_def Let_def m_def H_def M lbs)
    then have lo: "- H \<le> r" using m by auto
    have "8 * Num_bytes T - 1 < 8 * sizeof (Int_t T) - 1" using lt N by simp
    then have "H < 2 ^ (8 * sizeof (Int_t T) - 1)"
      unfolding H_def by (intro power_strict_increasing) simp_all
    then have "r \<noteq> - (2 ^ (8 * sizeof (Int_t T) - 1))" using lo by linarith
    then show ?thesis
      using s by (cases "Int_t T") (simp_all add: negation_overflows_def numeric_min_def)
  qed
  have "value_of Little T self = Inr (r, self)"
    unfolding value_of_def get_value_Little [OF T len] bs_def [symmetric] d
    using no by simp
  moreover have "load_carrier Little T self =
      Inr (frame (data self)
             (bs @ replicate (sizeof (Int_t T) - Num_bytes T)
                     (if bit (most_significant_byte T self) 7 then 255 else 0)))"
    unfolding load_carrier_Little [OF T len] bs_def [symmetric] msb bit7_test
    using s lt by simp
  ultimately show ?thesis
    using sign unfolding r_def bs_def by blast
qed

theorem read_back_sign_extension_witness:
  "\<exists>r. value_of Little \<lparr>Int_t = Signed 4, Num_bytes = 3, Byte_order = Big\<rparr>
           \<lparr>data = [0xFF, 0xFF, 0xFE]\<rparr> = Inr (r, \<lparr>data = [0xFF, 0xFF, 0xFE]\<rparr>)
       \<and> r = - 2
       \<and> load_carrier Little \<lparr>Int_t = Signed 4, Num_bytes = 3, Byte_order = Big\<rparr>
           \<lparr>data = [0xFF, 0xFF, 0xFE]\<rparr>
           = Inr (frame [0xFF, 0xFF, 0xFE] [0xFE, 0xFF, 0xFF, 0xFF])"
  using read_back_sign_extension
    [of "\<lparr>Int_t = Signed 4, Num_bytes = 3, Byte_order = Big\<rparr>" "\<lparr>data = [0xFF, 0xFF, 0xFE]\<rparr>"]
  by (simp add: valid_parameters_def enabled_def in_byte_order_def most_significant_byte_def
      twos_complement_interpretation_def bit_iff_odd)

text \<open>
  Claim C8: on a little-endian host, default construction from any indeterminate array
  leaves \<open>Num_bytes\<close> zero bytes, and reading the instance back yields \<open>0\<close>.
\<close>

theorem default_construct_zero:
  assumes "valid_parameters T" and "length (data uninitialized) = Num_bytes T"
  shows "\<exists>self. default_construct Little T uninitialized = Inr self
           \<and> fst (bytes self) = replicate (Num_bytes T) 0
           \<and> value_of Little T self = Inr (0, self)"
proof -
  let ?s = "uninitialized\<lparr>data := in_byte_order T (low_bytes (Num_bytes T) 0)\<rparr>"
  note rb = read_back [OF assms representable_zero zero_no_overflow]
  have "default_construct Little T uninitialized = Inr ?s"
    using rb(1) by (simp add: default_construct_def construct_def)
  moreover have "fst (bytes ?s) = replicate (Num_bytes T) 0"
    by (simp add: bytes_def low_bytes_zero in_byte_order_replicate)
  moreover have "value_of Little T ?s = Inr (0, ?s)"
    using rb(2) truncated_zero [OF assms(1)] by (simp add: value_of_def)
  ultimately show ?thesis by blast
qed

theorem default_construct_zero_witness:
  "\<exists>self. default_construct Little \<lparr>Int_t = Unsigned 4, Num_bytes = 4, Byte_order = Big\<rparr>
              \<lparr>data = [1, 2, 3, 4]\<rparr> = Inr self
         \<and> fst (bytes self) = [0, 0, 0, 0]
         \<and> value_of Little \<lparr>Int_t = Unsigned 4, Num_bytes = 4, Byte_order = Big\<rparr> self = Inr (0, self)"
  using default_construct_zero
    [of "\<lparr>Int_t = Unsigned 4, Num_bytes = 4, Byte_order = Big\<rparr>" "\<lparr>data = [1, 2, 3, 4]\<rparr>"]
  by (simp add: valid_parameters_def enabled_def numeral_eq_Suc)

text \<open>
  Claim C9: assigning the same value to two instances with different prior contents
  leaves their arrays identical.  With \<^verbatim>\<open>int64_t\<close> the assignment of \<open>- 2 ^ 63\<close> has no
  result, whatever the prior contents.  At every other input lemma
  \<open>assignment_overwrites\<close> gives the equality.
\<close>

theorem assignment_undefined_at_int64_min:
  "operator_assign Little \<lparr>Int_t = Signed 8, Num_bytes = 2, Byte_order = Little\<rparr>
     \<lparr>data = [1, 2]\<rparr> (- 9223372036854775808) = Inl Signed_overflow \<and>
   operator_assign Little \<lparr>Int_t = Signed 8, Num_bytes = 2, Byte_order = Little\<rparr>
     \<lparr>data = [3, 4]\<rparr> (- 9223372036854775808) = Inl Signed_overflow"
proof -
  have v: "representable (Signed 8) (- 9223372036854775808)"
    by (simp add: representable_def numeric_min_def numeric_max_def)
  have "assign_value Little \<lparr>Int_t = Signed 8, Num_bytes = 2, Byte_order = Little\<rparr>
      \<lparr>data = [a, b]\<rparr> (- 9223372036854775808) = Inl Signed_overflow" for a b
    using assign_value_Little
      [of "\<lparr>Int_t = Signed 8, Num_bytes = 2, Byte_order = Little\<rparr>" "\<lparr>data = [a, b]\<rparr>"
        "- 9223372036854775808"] v
    by (simp add: valid_parameters_def enabled_def negation_overflows_def numeric_min_def
        sizeof_int_def)
  then show ?thesis by (simp add: operator_assign_def)
qed

text \<open>
  Claim C10: \<^verbatim>\<open>value()\<close>, \<^verbatim>\<open>operator Int\<close> and \<^verbatim>\<open>bytes()\<close> leave the stored bytes
  unchanged.  An instance comes into being by the constructor and changes by assignment
  only, and both are \<^verbatim>\<open>assign_value\<close>; so on a little-endian host, for an instance
  that a successful \<^verbatim>\<open>assign_value\<close> left, each observer returns and the instance
  after the call is the instance before it.  On either host and for any stored bytes, an
  observer that returns leaves the instance as it was.
\<close>

theorem observers_preserve_buffer:
  assumes T: "valid_parameters T" and len: "length (data s0) = Num_bytes T"
    and v: "representable (Int_t T) v" and a: "assign_value Little T s0 v = Inr self"
  shows "(\<exists>r. value_of Little T self = Inr (r, self) \<and> operator_Int Little T self = Inr (r, self))
       \<and> snd (bytes self) = self
       \<and> (\<forall>native s r s'. value_of native T s = Inr (r, s') \<longrightarrow> s' = s)
       \<and> (\<forall>native s r s'. operator_Int native T s = Inr (r, s') \<longrightarrow> s' = s)"
proof -
  have ok: "\<not> negation_overflows (Int_t T) v"
    using assign_value_Little [OF T len v] a by (auto split: if_splits)
  note rb = read_back [OF T len v ok]
  have "self = s0\<lparr>data := in_byte_order T (low_bytes (Num_bytes T) v)\<rparr>"
    using rb(1) a by simp
  then have "get_value Little T self = Inr (truncated T v, self)"
    using rb(2) by simp
  then show ?thesis
    using get_value_frame by (auto simp add: value_of_def operator_Int_def bytes_def)
qed

theorem observers_preserve_buffer_witness:
  "\<exists>r. value_of Little \<lparr>Int_t = Unsigned 4, Num_bytes = 2, Byte_order = Little\<rparr>
           \<lparr>data = [0x70, 0x11]\<rparr> = Inr (r, \<lparr>data = [0x70, 0x11]\<rparr>)
       \<and> operator_Int Little \<lparr>Int_t = Unsigned 4, Num_bytes = 2, Byte_order = Little\<rparr>
           \<lparr>data = [0x70, 0x11]\<rparr> = Inr (r, \<lparr>data = [0x70, 0x11]\<rparr>)
       \<and> snd (bytes \<lparr>data = [0x70, 0x11]\<rparr>) = \<lparr>data = [0x70, 0x11]\<rparr>"
proof -
  let ?T = "\<lparr>Int_t = Unsigned 4, Num_bytes = 2, Byte_order = Little\<rparr>"
  have T: "valid_parameters ?T" by (simp add: valid_parameters_def enabled_def)
  have len: "length (data \<lparr>data = [0, 0]\<rparr>) = Num_bytes ?T" by simp
  have v: "representable (Int_t ?T) 70000"
    by (simp add: representable_def numeric_min_def numeric_max_def)
  have "[0..<2] = [0, 1]" by (simp add: upt_rec)
  then have lb: "low_bytes 2 70000 = [0x70, 0x11]"
    by (simp add: low_bytes_def byte_of_def)
  have a: "assign_value Little ?T \<lparr>data = [0, 0]\<rparr> 70000 = Inr \<lparr>data = [0x70, 0x11]\<rparr>"
    using assign_value_Little [OF T len v]
    by (simp add: negation_overflows_def in_byte_order_def lb)
  show ?thesis using observers_preserve_buffer [OF T len v a] by blast
qed

end
